theory Spec2Isabelle
  imports Complex_Main "HOL-Library.Char_ord" "HOL-Library.List_Lexorder"
    "HOL-Library.Product_Lexorder" "HOL-Library.AList"
begin

section \<open>Python strings\<close>

text \<open>
  A Python \<open>str\<close> is a sequence of code points. The model takes the code points
  \<open>0..255\<close> (Latin-1), one \<^typ>\<open>char\<close> each, and gives the character classes
  of CPython on that range: \<open>str.isspace\<close> (used by \<open>str.strip\<close> and by the
  regular expression class \<open>\s\<close>), the class \<open>\w\<close> (alphanumeric or underscore)
  and \<open>str.lower\<close>.
\<close>

definition py_isspace :: "char \<Rightarrow> bool" where
  "py_isspace c =
     (let n = (of_char c :: nat)
      in (9 \<le> n \<and> n \<le> 13) \<or> (28 \<le> n \<and> n \<le> 32) \<or> n = 133 \<or> n = 160)"

definition re_word :: "char \<Rightarrow> bool" where
  "re_word c =
     (let n = (of_char c :: nat)
      in (48 \<le> n \<and> n \<le> 57) \<or> (65 \<le> n \<and> n \<le> 90) \<or> n = 95 \<or> (97 \<le> n \<and> n \<le> 122)
         \<or> n = 170 \<or> n = 178 \<or> n = 179 \<or> n = 181 \<or> n = 185 \<or> n = 186
         \<or> (188 \<le> n \<and> n \<le> 190) \<or> (192 \<le> n \<and> n \<le> 214)
         \<or> (216 \<le> n \<and> n \<le> 246) \<or> (248 \<le> n \<and> n \<le> 255))"

definition ascii_lower :: "char \<Rightarrow> bool" where
  "ascii_lower c = (let n = (of_char c :: nat) in 97 \<le> n \<and> n \<le> 122)"

definition ascii_upper :: "char \<Rightarrow> bool" where
  "ascii_upper c = (let n = (of_char c :: nat) in 65 \<le> n \<and> n \<le> 90)"

definition lower_char :: "char \<Rightarrow> char" where
  "lower_char c =
     (let n = (of_char c :: nat)
      in if (65 \<le> n \<and> n \<le> 90) \<or> (192 \<le> n \<and> n \<le> 214) \<or> (216 \<le> n \<and> n \<le> 222)
         then char_of (n + 32) else c)"

definition lower :: "string \<Rightarrow> string" where
  "lower s = map lower_char s"

definition strip :: "string \<Rightarrow> string" where
  "strip s = rev (dropWhile py_isspace (rev (dropWhile py_isspace s)))"

text \<open>\<open>s.startswith(p)\<close>, and the same test ignoring case for a lower-case \<open>p\<close>.\<close>

definition startswith :: "string \<Rightarrow> string \<Rightarrow> bool" where
  "startswith s p = (take (length p) s = p)"

definition startswith_ci :: "string \<Rightarrow> string \<Rightarrow> bool" where
  "startswith_ci s p = (lower (take (length p) s) = p)"

text \<open>\<open>p in s\<close>: \<open>p\<close> occurs in \<open>s\<close> as a contiguous substring.\<close>

fun py_in :: "string \<Rightarrow> string \<Rightarrow> bool" where
  "py_in p [] = (p = [])"
| "py_in p (c # cs) = (startswith (c # cs) p \<or> py_in p cs)"

text \<open>\<open>s.replace(old, new)\<close>: the occurrences of \<open>old\<close>, left to right, not overlapping.\<close>

function replace :: "string \<Rightarrow> string \<Rightarrow> string \<Rightarrow> string" where
  "replace [] old new = (if old = [] then new else [])"
| "replace (c # cs) old new =
     (if old = [] then new @ c # replace cs old new
      else if startswith (c # cs) old then new @ replace (drop (length old) (c # cs)) old new
      else c # replace cs old new)"
  by pat_completeness auto
termination
  by (relation "measure (\<lambda>(s, old, new). length s)") auto

text \<open>
  \<open>s.split(sep)\<close> for a non-empty separator (Python raises on an empty one; every
  call of the source passes a literal). \<open>acc\<close> holds the current piece, reversed.
\<close>

function split_acc :: "string \<Rightarrow> string \<Rightarrow> string \<Rightarrow> string list" where
  "split_acc sep acc [] = [rev acc]"
| "split_acc sep acc (c # cs) =
     (if sep \<noteq> [] \<and> startswith (c # cs) sep
      then rev acc # split_acc sep [] (drop (length sep) (c # cs))
      else split_acc sep (c # acc) cs)"
  by pat_completeness auto
termination
  by (relation "measure (\<lambda>(sep, acc, s). length s)") auto

definition split :: "string \<Rightarrow> string \<Rightarrow> string list" where
  "split s sep = split_acc sep [] s"

fun join :: "string \<Rightarrow> string list \<Rightarrow> string" where
  "join sep [] = []"
| "join sep [x] = x"
| "join sep (x # y # ys) = x @ sep @ join sep (y # ys)"

text \<open>\<open>str(i)\<close> for a list index \<open>i\<close>.\<close>

definition digit_char :: "nat \<Rightarrow> char" where
  "digit_char d = char_of (48 + d)"

fun str_nat :: "nat \<Rightarrow> string" where
  "str_nat n = (if n < 10 then [digit_char n] else str_nat (n div 10) @ [digit_char (n mod 10)])"

declare str_nat.simps [simp del]

definition apostrophe :: char where
  "apostrophe = char_of (39 :: nat)"

definition double_quote :: char where
  "double_quote = char_of (34 :: nat)"

definition backtick :: char where
  "backtick = char_of (96 :: nat)"

definition newline :: char where
  "newline = char_of (10 :: nat)"

section \<open>The regular expressions of the source\<close>

text \<open>
  Each pattern of the source is a scanner over the rest of the string. \<open>prev\<close> says
  whether the character before the current position is a word character, which decides
  \<open>\b\<close>. In every pattern below a greedy repetition is followed by something outside
  its own character class, so backtracking into a shorter repetition can never succeed
  and the longest run is the only match of the repetition.
\<close>

text \<open>\<open>re.search(r'\bWITH\b', s, re.IGNORECASE)\<close> finds a match.\<close>

fun search_with :: "bool \<Rightarrow> string \<Rightarrow> bool" where
  "search_with prev [] = False"
| "search_with prev (c # cs) =
     ((\<not> prev \<and> startswith_ci (c # cs) ''with''
        \<and> (case drop 4 (c # cs) of [] \<Rightarrow> True | d # _ \<Rightarrow> \<not> re_word d))
      \<or> search_with (re_word c) cs)"

text \<open>
  One match of \<open>\b(\w+)\s+AS\s*\(\<close> (ignoring case) at a word start: the word, and
  the rest of the string after the opening parenthesis.
\<close>

definition match_cte :: "string \<Rightarrow> (string \<times> string) option" where
  "match_cte s =
     (let w = takeWhile re_word s;
          r1 = dropWhile re_word s;
          r2 = dropWhile py_isspace r1
      in if w = [] \<or> takeWhile py_isspace r1 = [] \<or> \<not> startswith_ci r2 ''as'' then None
         else (case dropWhile py_isspace (drop 2 r2) of
                 [] \<Rightarrow> None
               | d # r3 \<Rightarrow> if d = CHR ''('' then Some (w, r3) else None))"

lemma match_cte_Some:
  assumes "match_cte s = Some (w, r)"
  shows "dropWhile py_isspace (drop 2 (dropWhile py_isspace (dropWhile re_word s))) = CHR ''('' # r"
    and "w = takeWhile re_word s"
  using assms unfolding match_cte_def Let_def
  by (cases "dropWhile py_isspace (drop 2 (dropWhile py_isspace (dropWhile re_word s)))";
      auto simp only: list.case if_False if_True option.simps prod.inject split: if_split_asm)+

lemma match_cte_shorter: "match_cte s = Some (w, r) \<Longrightarrow> length r < length s"
proof -
  assume m: "match_cte s = Some (w, r)"
  define r1 where "r1 = dropWhile re_word s"
  define r2 where "r2 = dropWhile py_isspace r1"
  define r3 where "r3 = dropWhile py_isspace (drop 2 r2)"
  have "length r1 \<le> length s" "length r2 \<le> length r1" "length r3 \<le> length r2"
    unfolding r1_def r2_def r3_def
    by (simp_all add: length_dropWhile_le le_trans[OF length_dropWhile_le])
  moreover have "length r3 = Suc (length r)"
    unfolding r3_def r2_def r1_def match_cte_Some(1)[OF m] by (simp only: list.size(4) One_nat_def add_Suc_right add_0_right)
  ultimately show ?thesis by linarith
qed

text \<open>\<open>re.findall(r'\b(\w+)\s+AS\s*\(', s, re.IGNORECASE)\<close>.\<close>

function findall_cte :: "bool \<Rightarrow> string \<Rightarrow> string list" where
  "findall_cte prev [] = []"
| "findall_cte prev (c # cs) =
     (if \<not> prev \<and> re_word c
      then (case match_cte (c # cs) of
              Some (w, r) \<Rightarrow> w # findall_cte False r
            | None \<Rightarrow> findall_cte (re_word c) cs)
      else findall_cte (re_word c) cs)"
  by pat_completeness auto
termination
  by (relation "measure (\<lambda>(prev, s). length s)") (auto dest: match_cte_shorter)

text \<open>
  One match of \<open>\b(?:FROM|JOIN)\s+(?:[`"\[]([^`"\]]+)[`"\]]|(\w+))\<close> (ignoring case)
  at a word start: the group that matched (the source takes the first group when it
  is not empty and the second otherwise), whether the match ends in a word character,
  and the rest of the string.
\<close>

definition table_opener :: "char \<Rightarrow> bool" where
  "table_opener c = (c = backtick \<or> c = double_quote \<or> c = CHR ''['')"

definition table_closer :: "char \<Rightarrow> bool" where
  "table_closer c = (c = backtick \<or> c = double_quote \<or> c = CHR '']'')"

definition match_table :: "string \<Rightarrow> (string \<times> bool \<times> string) option" where
  "match_table s =
     (if \<not> (startswith_ci s ''from'' \<or> startswith_ci s ''join'') then None
      else let r1 = drop 4 s; r2 = dropWhile py_isspace r1
           in if takeWhile py_isspace r1 = [] then None
              else (case r2 of
                      [] \<Rightarrow> None
                    | q # r3 \<Rightarrow>
                        if table_opener q
                        then (let body = takeWhile (\<lambda>c. \<not> table_closer c) r3
                              in case dropWhile (\<lambda>c. \<not> table_closer c) r3 of
                                   [] \<Rightarrow> None
                                 | e # r4 \<Rightarrow> if body = [] then None else Some (body, False, r4))
                        else if re_word q
                        then Some (takeWhile re_word r2, True, dropWhile re_word r2)
                        else None))"

lemma match_table_shorter: "match_table s = Some (t, p, r) \<Longrightarrow> length r < length s"
proof -
  assume m: "match_table s = Some (t, p, r)"
  define r1 where "r1 = drop 4 s"
  define r2 where "r2 = dropWhile py_isspace r1"
  have ci: "startswith_ci s ''from'' \<or> startswith_ci s ''join''"
    using m by (auto simp: match_table_def split: if_splits)
  then have "length s \<ge> 4"
    by (auto simp: startswith_ci_def lower_def dest!: arg_cong[where f = length])
  then have a: "length r1 < length s"
    unfolding r1_def by simp
  have b: "length r2 \<le> length r1"
    unfolding r2_def by (simp add: length_dropWhile_le)
  obtain q r3 where r2: "r2 = q # r3"
    using m ci unfolding match_table_def r1_def r2_def Let_def
    by (auto split: if_splits list.splits)
  have "length r \<le> length r2"
  proof (cases "table_opener q")
    case True
    then obtain e where "dropWhile (\<lambda>c. \<not> table_closer c) r3 = e # r"
      using m ci r2 unfolding match_table_def r1_def r2_def Let_def
      by (auto split: if_splits list.splits)
    then have "length (e # r) \<le> length r3"
      using length_dropWhile_le[of "\<lambda>c. \<not> table_closer c" r3] by simp
    then show ?thesis using r2 by simp
  next
    case False
    then have "r = dropWhile re_word r2"
      using m ci r2 unfolding match_table_def r1_def r2_def Let_def
      by (auto split: if_splits list.splits)
    then show ?thesis by (simp add: length_dropWhile_le)
  qed
  with a b show ?thesis by linarith
qed

text \<open>\<open>re.findall(table_pattern, s, re.IGNORECASE)\<close>, each pair already flattened.\<close>

function findall_table :: "bool \<Rightarrow> string \<Rightarrow> string list" where
  "findall_table prev [] = []"
| "findall_table prev (c # cs) =
     (if \<not> prev \<and> re_word c
      then (case match_table (c # cs) of
              Some (t, p, r) \<Rightarrow> t # findall_table p r
            | None \<Rightarrow> findall_table (re_word c) cs)
      else findall_table (re_word c) cs)"
  by pat_completeness auto
termination
  by (relation "measure (\<lambda>(prev, s). length s)") (auto dest: match_table_shorter)

text \<open>\<open>re.sub(r'([a-z])([A-Z])', r'\1 \2', s)\<close>.\<close>

fun camel_to_spaced :: "string \<Rightarrow> string" where
  "camel_to_spaced (c # d # cs) =
     (if ascii_lower c \<and> ascii_upper d then c # CHR '' '' # d # camel_to_spaced cs
      else c # camel_to_spaced (d # cs))"
| "camel_to_spaced cs = cs"

text \<open>One match of \<open>\b(\w+)\.(\w+)\b\<close> at a word start, and the rest of the string.\<close>

definition match_column :: "string \<Rightarrow> ((string \<times> string) \<times> string) option" where
  "match_column s =
     (case dropWhile re_word s of
        [] \<Rightarrow> None
      | d # r \<Rightarrow>
          if d = CHR ''.'' \<and> takeWhile re_word r \<noteq> []
          then Some ((takeWhile re_word s, takeWhile re_word r), dropWhile re_word r)
          else None)"

lemma match_column_shorter: "match_column s = Some (m, r) \<Longrightarrow> length r < length s"
proof -
  assume m: "match_column s = Some (m, r)"
  then obtain d r' where d: "dropWhile re_word s = d # r'" and r: "r = dropWhile re_word r'"
    unfolding match_column_def by (auto split: list.splits if_splits)
  have "length (d # r') \<le> length s"
    using length_dropWhile_le[of re_word s] d by simp
  moreover have "length r \<le> length r'"
    unfolding r by (simp add: length_dropWhile_le)
  ultimately show ?thesis by simp
qed

text \<open>\<open>re.findall(r'\b(\w+)\.(\w+)\b', s)\<close>.\<close>

function findall_column :: "bool \<Rightarrow> string \<Rightarrow> (string \<times> string) list" where
  "findall_column prev [] = []"
| "findall_column prev (c # cs) =
     (if \<not> prev \<and> re_word c
      then (case match_column (c # cs) of
              Some (m, r) \<Rightarrow> m # findall_column True r
            | None \<Rightarrow> findall_column (re_word c) cs)
      else findall_column (re_word c) cs)"
  by pat_completeness auto
termination
  by (relation "measure (\<lambda>(prev, s). length s)") (auto dest: match_column_shorter)

text \<open>
  \<open>re.sub(kw + r'\(([^)]+)\)', r"strftime('" + fmt + r"', \1)", s, flags=re.IGNORECASE)\<close>
  for \<open>kw\<close> one of \<open>YEAR\<close>, \<open>MONTH\<close>, given in lower case.
\<close>

function sub_strftime :: "string \<Rightarrow> string \<Rightarrow> string \<Rightarrow> string" where
  "sub_strftime kw fmt [] = []"
| "sub_strftime kw fmt (c # cs) =
     (let r = drop (length kw + 1) (c # cs);
          body = takeWhile (\<lambda>x. x \<noteq> CHR '')'') r
      in if startswith_ci (c # cs) (kw @ ''('') \<and> body \<noteq> []
            \<and> dropWhile (\<lambda>x. x \<noteq> CHR '')'') r \<noteq> []
         then ''strftime('' @ [apostrophe] @ fmt @ [apostrophe] @ '', '' @ body @ '')''
              @ sub_strftime kw fmt (tl (dropWhile (\<lambda>x. x \<noteq> CHR '')'') r))
         else c # sub_strftime kw fmt cs)"
  by pat_completeness auto
termination
proof (relation "measure (\<lambda>(kw, fmt, s). length s)", goal_cases)
  case 1
  show ?case by simp
next
  case (2 kw fmt c cs r body)
  have "length (dropWhile (\<lambda>x. x \<noteq> CHR '')'') r) \<le> length r"
    by (rule length_dropWhile_le)
  moreover have "length r \<le> length cs"
    unfolding 2(1) by simp
  ultimately show ?case
    using 2 by (cases "dropWhile (\<lambda>x. x \<noteq> CHR '')'') r") auto
next
  case 3
  then show ?case by simp
qed

text \<open>
  \<open>re.match(r'\s*-\s*(\w+)\s*\(', line)\<close>: the first group when the line matches.
\<close>

definition match_column_line :: "string \<Rightarrow> string option" where
  "match_column_line line =
     (case dropWhile py_isspace line of
        [] \<Rightarrow> None
      | d # r \<Rightarrow>
          if d \<noteq> CHR ''-'' then None
          else let r1 = dropWhile py_isspace r; w = takeWhile re_word r1
               in if w = [] then None
                  else (case dropWhile py_isspace (dropWhile re_word r1) of
                          [] \<Rightarrow> None
                        | e # _ \<Rightarrow> if e = CHR ''('' then Some w else None))"

section \<open>The schema accessor (\<open>agent/tools/sqlite_tool.py\<close>)\<close>

text \<open>
  The text of a Python exception, \<open>str(e)\<close>. A call that may raise returns
  \<open>Inl\<close> of that text.
\<close>

type_synonym exn = string

datatype sql_value = SqlNull | SqlInteger int | SqlReal real | SqlText string | SqlBlob string

record query_result =
  columns :: "string list"
  rows :: "sql_value list list"
  error :: "string option"

text \<open>
  The SQLite engine is outside the program. \<open>tables\<close> is what \<open>sqlite_master\<close>
  and \<open>PRAGMA table_info\<close> answer (each table with the name and type of its columns),
  \<open>catalogue_failure\<close> the exception of connecting or of reading them, if they raise, and
  \<open>run\<close> the outcome of connecting, executing a query and fetching its rows: the
  exception, or the column names of \<open>cursor.description\<close> and the rows.
\<close>

record database =
  tables :: "(string \<times> (string \<times> string) list) list"
  catalogue_failure :: "exn option"
  run :: "string \<Rightarrow> exn + (string list \<times> sql_value list list)"

definition execute_query :: "database \<Rightarrow> string \<Rightarrow> query_result" where
  "execute_query db query =
     (case run db query of
        Inr (cols, rws) \<Rightarrow> \<lparr>columns = cols, rows = rws, error = None\<rparr>
      | Inl e \<Rightarrow> \<lparr>columns = [], rows = [], error = Some e\<rparr>)"

definition render_table :: "string \<times> (string \<times> string) list \<Rightarrow> string" where
  "render_table tc =
     ''Table: '' @ fst tc @ [newline]
     @ concat (map (\<lambda>col. ''  - '' @ fst col @ '' ('' @ snd col @ '')'' @ [newline]) (snd tc))
     @ [newline]"

definition get_schema :: "database \<Rightarrow> string list option \<Rightarrow> exn + string" where
  "get_schema db table_names =
     (case catalogue_failure db of
        Some e \<Rightarrow> Inl e
      | None \<Rightarrow>
          (let selected =
                 (case table_names of
                    None \<Rightarrow> tables db
                  | Some names \<Rightarrow>
                      if names = [] then tables db
                      else filter (\<lambda>tc. fst tc \<in> set names) (tables db))
           in Inr (concat (map render_table selected))))"

definition get_all_tables :: "database \<Rightarrow> exn + string list" where
  "get_all_tables db =
     (case catalogue_failure db of
        Some e \<Rightarrow> Inl e
      | None \<Rightarrow> Inr (map fst (tables db)))"

section \<open>The SQL validator (\<open>agent/tools/sql_validator.py\<close>)\<close>

text \<open>
  \<open>valid_tables\<close> is a Python set and \<open>valid_columns\<close> a dictionary of sets: lists
  without repetition here. The source iterates them to test membership and to sort, and
  in \<open>find_similar_columns\<close> it iterates a set of strings in the order of the
  interpreter, which depends on the hashes of the strings and is not specified.
  \<open>column_rank\<close> stands for that order: given the elements of a set, it ranks each of
  them, and the set is iterated by ascending rank. Whatever the interpreter does is one
  choice of ranks.
\<close>

record catalog =
  valid_tables :: "string list"
  valid_columns :: "(string \<times> string list) list"
  column_rank :: "string list \<Rightarrow> string \<Rightarrow> nat"

definition extract_columns_from_schema :: "string \<Rightarrow> string list" where
  "extract_columns_from_schema schema_str =
     List.map_filter
       (\<lambda>line. if startswith (strip line) ''- '' then match_column_line line else None)
       (split schema_str [newline])"

fun load_schema :: "database \<Rightarrow> string list \<Rightarrow> catalog \<Rightarrow> exn + catalog" where
  "load_schema db [] cat = Inr cat"
| "load_schema db (table # rest) cat =
     (case get_schema db (Some [table]) of
        Inl e \<Rightarrow> Inl e
      | Inr schema_str \<Rightarrow>
          load_schema db rest
            (cat\<lparr>valid_tables := List.insert (lower table) (valid_tables cat),
                 valid_columns :=
                   AList.update (lower table)
                     (remdups (map lower (extract_columns_from_schema schema_str)))
                     (valid_columns cat)\<rparr>))"

text \<open>
  \<open>SQLValidator()\<close>: the constructor reads the live schema. \<open>rank\<close> is the order
  in which the interpreter that holds the validator iterates a set.
\<close>

definition new_validator :: "(string list \<Rightarrow> string \<Rightarrow> nat) \<Rightarrow> database \<Rightarrow> exn + catalog" where
  "new_validator rank db =
     (case get_all_tables db of
        Inl e \<Rightarrow> Inl e
      | Inr ts \<Rightarrow>
          load_schema db ts \<lparr>valid_tables = [], valid_columns = [], column_rank = rank\<rparr>)"

record validation =
  valid :: bool
  val_errors :: "string list"

text \<open>The three matching strategies of the loop over \<open>self.valid_tables\<close>.\<close>

definition table_known :: "catalog \<Rightarrow> string \<Rightarrow> bool" where
  "table_known cat clean_table =
     (let table_lower = lower clean_table;
          spaced_table = lower (camel_to_spaced clean_table);
          table_no_space = replace table_lower '' '' []
      in list_ex
           (\<lambda>valid_table.
              table_lower = valid_table \<or> spaced_table = valid_table
              \<or> table_no_space = replace valid_table '' '' [])
           (valid_tables cat))"

definition table_error :: "catalog \<Rightarrow> string \<Rightarrow> string" where
  "table_error cat table =
     ''Table '' @ [apostrophe] @ table @ [apostrophe]
     @ '' does not exist in schema. Valid tables: '' @ join '', '' (sort (valid_tables cat))"

fun check_tables :: "catalog \<Rightarrow> string list \<Rightarrow> string list \<Rightarrow> string list \<Rightarrow> string list" where
  "check_tables cat cte_names [] errs = errs"
| "check_tables cat cte_names (table # rest) errs =
     (let clean_table = strip table
      in if lower clean_table \<in> set (map lower cte_names) then check_tables cat cte_names rest errs
         else if table_known cat clean_table then check_tables cat cte_names rest errs
         else check_tables cat cte_names rest (errs @ [table_error cat table]))"

definition find_similar_columns :: "catalog \<Rightarrow> string \<Rightarrow> string list" where
  "find_similar_columns cat column =
     (let all_columns = remdups (concat (map snd (valid_columns cat)));
          iterated = sort_key (column_rank cat all_columns) all_columns
      in take 3 (filter (\<lambda>valid_col. py_in column valid_col \<or> py_in valid_col column) iterated))"

definition column_error :: "catalog \<Rightarrow> string \<Rightarrow> string" where
  "column_error cat column =
     (let suggestions = find_similar_columns cat (lower column)
      in if suggestions \<noteq> []
         then ''Column '' @ [apostrophe] @ column @ [apostrophe]
              @ '' not found in any table schema. Did you mean: '' @ join '', '' suggestions @ ''?''
         else ''Column '' @ [apostrophe] @ column @ [apostrophe]
              @ '' not found in any table schema'')"

fun check_columns :: "catalog \<Rightarrow> (string \<times> string) list \<Rightarrow> string list \<Rightarrow> string list" where
  "check_columns cat [] errs = errs"
| "check_columns cat (ac # rest) errs =
     (if list_ex (\<lambda>table_cols. lower (snd ac) \<in> set (snd table_cols)) (valid_columns cat)
      then check_columns cat rest errs
      else check_columns cat rest (errs @ [column_error cat (snd ac)]))"

definition cte_names_of :: "string \<Rightarrow> string list" where
  "cte_names_of sql_query =
     (if search_with False sql_query then remdups (findall_cte False sql_query) else [])"

definition validate_sql :: "catalog \<Rightarrow> string \<Rightarrow> validation" where
  "validate_sql cat sql_query =
     (if sql_query = [] \<or> strip sql_query = [] then \<lparr>valid = True, val_errors = []\<rparr>
      else let errs1 = check_tables cat (cte_names_of sql_query) (findall_table False sql_query) [];
               errs2 = check_columns cat (findall_column False sql_query) errs1
           in \<lparr>valid = (length errs2 = 0), val_errors = errs2\<rparr>)"

definition get_schema_summary :: "catalog \<Rightarrow> string" where
  "get_schema_summary cat =
     ''Valid Tables:'' @ [newline]
     @ concat
         (map (\<lambda>table.
                 ''  - '' @ table @ [newline]
                 @ (case map_of (valid_columns cat) table of
                      None \<Rightarrow> []
                    | Some cols \<Rightarrow> ''    Columns: '' @ join '', '' (sort cols) @ [newline]))
            (sort (valid_tables cat)))"

section \<open>The document index (\<open>agent/rag/retrieval.py\<close>)\<close>

record chunk =
  chunk_id :: string
  content :: string
  source :: string

text \<open>A result of a search: the chunk, copied, with its similarity under \<open>score\<close>.\<close>

record scored_chunk = chunk +
  score :: real

text \<open>
  One section of a file: \<open>None\<close> when it has no line left after stripping, which the
  source skips with \<open>continue\<close>.
\<close>

definition section_chunk :: "string \<Rightarrow> nat \<times> string \<Rightarrow> chunk option" where
  "section_chunk filename isec =
     (let section = (if fst isec > 0 then ''## '' @ snd isec else snd isec);
          lines = map strip (filter (\<lambda>line. strip line \<noteq> []) (split section [newline]))
      in if lines = [] then None
         else Some \<lparr>chunk_id = filename @ ''::chunk'' @ str_nat (fst isec),
                    content = join [newline] lines,
                    source = filename\<rparr>)"

text \<open>A file is the base name of its path and what \<open>f.read()\<close> returns.\<close>

definition file_chunks :: "string \<times> string \<Rightarrow> chunk list" where
  "file_chunks file =
     (let filename = replace (fst file) ''.md'' [];
          sections = split (snd file) (newline # ''## '')
      in List.map_filter (section_chunk filename) (enumerate 0 sections))"

definition load_and_chunk_docs :: "(string \<times> string) list \<Rightarrow> chunk list" where
  "load_and_chunk_docs md_files = concat (map file_chunks md_files)"

text \<open>
  The vectorizer of scikit-learn is outside the program: \<open>fit\<close> is
  \<open>TfidfVectorizer(stop_words='english').fit_transform(corpus)\<close>, which may raise, and a
  fitted index gives the cosine similarity of a query and the \<open>i\<close>-th chunk (the matrix
  has one row for each chunk). The similarities are compared only with each other and with
  zero, so they are reals here.
\<close>

record retriever =
  chunks :: "chunk list"
  vectorizer :: "(string \<Rightarrow> nat \<Rightarrow> real) option"

definition build_index ::
  "(string list \<Rightarrow> exn + (string \<Rightarrow> nat \<Rightarrow> real)) \<Rightarrow> chunk list \<Rightarrow> exn + retriever" where
  "build_index fit cs =
     (if cs = [] then Inr \<lparr>chunks = cs, vectorizer = None\<rparr>
      else (case fit (map content cs) of
              Inl e \<Rightarrow> Inl e
            | Inr v \<Rightarrow> Inr \<lparr>chunks = cs, vectorizer = Some v\<rparr>))"

text \<open>Python's \<open>xs[start:]\<close>: a negative start counts from the end.\<close>

definition slice_from :: "int \<Rightarrow> 'a list \<Rightarrow> 'a list" where
  "slice_from start xs =
     (if start < 0 then drop (nat (int (length xs) + start)) xs else drop (nat start) xs)"

text \<open>
  \<open>numpy.ndarray.argsort\<close>: the indices of the similarities in ascending order of
  similarity. Numpy does not specify the order among equal similarities: it is the
  order of the ranks \<open>tie\<close> here, whatever they are, and the order of the indices
  among equal ranks.
\<close>

definition argsort :: "(real list \<Rightarrow> nat \<Rightarrow> nat) \<Rightarrow> real list \<Rightarrow> nat list" where
  "argsort tie xs = sort_key (\<lambda>i. (xs ! i, tie xs i)) [0..<length xs]"

definition search :: "retriever \<Rightarrow> (real list \<Rightarrow> nat \<Rightarrow> nat) \<Rightarrow> string \<Rightarrow> int \<Rightarrow> scored_chunk list" where
  "search r tie query top_k =
     (case vectorizer r of
        None \<Rightarrow> []
      | Some v \<Rightarrow>
          if chunks r = [] then []
          else (let similarities = map (v query) [0..<length (chunks r)];
                    top_indices = rev (slice_from (- top_k) (argsort tie similarities))
                in concat
                     (map (\<lambda>idx. if similarities ! idx > 0
                                  then [chunk.extend (chunks r ! idx)
                                          (scored_chunk.fields (similarities ! idx))]
                                  else [])
                        top_indices)))"

section \<open>The workflow (\<open>agent/graph_hybrid.py\<close>)\<close>

text \<open>
  \<open>AgentState\<close>. The key \<open>context\<close> is \<open>context_chunks\<close> here, the former being
  a keyword of Isabelle.
\<close>

record agent_state =
  question :: string
  format_hint :: string
  strategy :: string
  context_chunks :: "scored_chunk list"
  schema :: string
  sql_query :: string
  sql_result :: "query_result option"
  final_answer :: "string option"
  explanation :: string
  citations :: "string list"
  errors :: "string list"
  repair_count :: int

text \<open>
  What a node calls outside the program. Every call takes the number of nodes that ran
  before it in the invocation, so that the language model, the database and the corpus
  may answer differently each time. The three oracles are the \<open>dspy\<close> modules
  \<open>CoT_Router\<close>, \<open>CoT_SQL\<close> and \<open>CoT_Synthesizer\<close>, reduced to the output fields
  the nodes read; the synthesizer receives the result record where the source passes
  its \<open>str\<close>.
\<close>

record env =
  router_oracle :: "nat \<Rightarrow> string \<Rightarrow> exn + string"
  sql_oracle :: "nat \<Rightarrow> string \<Rightarrow> string \<Rightarrow> exn + string"
  synth_oracle ::
    "nat \<Rightarrow> string \<Rightarrow> string \<Rightarrow> string \<Rightarrow> query_result option \<Rightarrow> string \<Rightarrow> exn + (string \<times> string)"
  db_at :: "nat \<Rightarrow> database"
  docs_at :: "nat \<Rightarrow> exn + (string \<times> string) list"
  tfidf_fit :: "string list \<Rightarrow> exn + (string \<Rightarrow> nat \<Rightarrow> real)"
  tie_rank :: "real list \<Rightarrow> nat \<Rightarrow> nat"
  hash_rank :: "string list \<Rightarrow> string \<Rightarrow> nat"

text \<open>\<open>Retriever()\<close>: the constructor reads the corpus and fits the index.\<close>

definition new_retriever :: "env \<Rightarrow> nat \<Rightarrow> exn + retriever" where
  "new_retriever ev t =
     (case docs_at ev t of
        Inl e \<Rightarrow> Inl e
      | Inr md_files \<Rightarrow> build_index (tfidf_fit ev) (load_and_chunk_docs md_files))"

text \<open>
  A node returns the keys it updates and the engine stores each of them over the old
  value (no key of \<open>AgentState\<close> declares a reducer), so a node is a function from the
  state to the updated state, or to the exception it lets escape.
\<close>

definition router_node :: "env \<Rightarrow> nat \<Rightarrow> agent_state \<Rightarrow> exn + agent_state" where
  "router_node ev t s =
     (case router_oracle ev t (question s) of
        Inl e \<Rightarrow> Inl e
      | Inr pred_strategy \<Rightarrow>
          (let strategy0 = strip (lower pred_strategy)
           in Inr (s\<lparr>strategy :=
                       if py_in ''sql'' strategy0 \<and> py_in ''rag'' strategy0 then ''hybrid''
                       else if py_in ''sql'' strategy0 then ''sql''
                       else ''rag''\<rparr>)))"

definition retriever_node :: "env \<Rightarrow> nat \<Rightarrow> agent_state \<Rightarrow> exn + agent_state" where
  "retriever_node ev t s =
     (case new_retriever ev t of
        Inl e \<Rightarrow> Inl e
      | Inr r \<Rightarrow> Inr (s\<lparr>context_chunks := search r (tie_rank ev) (question s) 3\<rparr>))"

definition planner_node :: "env \<Rightarrow> nat \<Rightarrow> agent_state \<Rightarrow> exn + agent_state" where
  "planner_node ev t s = Inr s"

definition code_fence :: string where
  "code_fence = [backtick, backtick, backtick]"

text \<open>
  What the generator node does to the text of the oracle before validating it: the code
  fences go, the text is stripped, and \<open>YEAR(x)\<close> and \<open>MONTH(x)\<close> become \<open>strftime\<close>.
\<close>

definition clean_sql :: "string \<Rightarrow> string" where
  "clean_sql pred_sql =
     (let q0 = strip (replace (replace pred_sql (code_fence @ ''sql'') []) code_fence []);
          q1 = sub_strftime ''year'' ''%Y'' q0
      in sub_strftime ''month'' ''%m'' q1)"

definition sql_generator_node :: "env \<Rightarrow> nat \<Rightarrow> agent_state \<Rightarrow> exn + agent_state" where
  "sql_generator_node ev t s =
     (case get_schema (db_at ev t) None of
        Inl e \<Rightarrow> Inl e
      | Inr schema_text \<Rightarrow>
          (case sql_oracle ev t (question s) schema_text of
             Inl e \<Rightarrow> Inl e
           | Inr pred_sql \<Rightarrow>
               (case new_validator (hash_rank ev) (db_at ev t) of
                  Inl e \<Rightarrow> Inl e
                | Inr validator \<Rightarrow>
                    (let validation_result = validate_sql validator (clean_sql pred_sql)
                     in if \<not> valid validation_result
                        then Inr (s\<lparr>sql_query := clean_sql pred_sql, schema := schema_text,
                                     errors := val_errors validation_result\<rparr>)
                        else Inr (s\<lparr>sql_query := clean_sql pred_sql, schema := schema_text\<rparr>)))))"

text \<open>\<open>if result["error"]:\<close> holds for a message that is neither \<open>None\<close> nor empty.\<close>

definition executor_node :: "env \<Rightarrow> nat \<Rightarrow> agent_state \<Rightarrow> exn + agent_state" where
  "executor_node ev t s =
     (let result = execute_query (db_at ev t) (sql_query s)
      in case error result of
           None \<Rightarrow> Inr (s\<lparr>sql_result := Some result\<rparr>)
         | Some e \<Rightarrow>
             if e \<noteq> [] then Inr (s\<lparr>sql_result := Some result, errors := [e]\<rparr>)
             else Inr (s\<lparr>sql_result := Some result\<rparr>))"

definition cited_tables :: "string list" where
  "cited_tables = [''Orders'', ''Order Details'', ''Products'', ''Customers'']"

definition synthesizer_node :: "env \<Rightarrow> nat \<Rightarrow> agent_state \<Rightarrow> exn + agent_state" where
  "synthesizer_node ev t s =
     (let context_str =
            join [newline] (map (\<lambda>c. ''['' @ chunk_id c @ ''] '' @ content c) (context_chunks s))
      in case synth_oracle ev t (question s) context_str (sql_query s) (sql_result s)
                (format_hint s) of
           Inl e \<Rightarrow> Inl e
         | Inr pred \<Rightarrow>
             (let table_citations =
                    (if sql_query s \<noteq> []
                     then filter
                            (\<lambda>tb. py_in (lower tb) (lower (sql_query s))
                                  \<or> py_in (lower (replace tb '' '' []))
                                       (replace (lower (sql_query s)) '' '' []))
                            cited_tables
                     else [])
              in Inr (s\<lparr>final_answer := Some (fst pred), explanation := snd pred,
                           citations := table_citations @ map chunk_id (context_chunks s)\<rparr>)))"

text \<open>
  The schema summary of the repair node is printed and dropped; what remains of it is
  that building the validator may raise.
\<close>

definition repair_node :: "env \<Rightarrow> nat \<Rightarrow> agent_state \<Rightarrow> exn + agent_state" where
  "repair_node ev t s =
     (let repair_count0 = repair_count s + 1
      in if errors s \<noteq> []
            \<and> list_ex (\<lambda>e. py_in ''does not exist'' e \<or> py_in ''not found'' e) (errors s)
         then (case new_validator (hash_rank ev) (db_at ev t) of
                 Inl e \<Rightarrow> Inl e
               | Inr validator \<Rightarrow> Inr (s\<lparr>repair_count := repair_count0, errors := []\<rparr>))
         else Inr (s\<lparr>repair_count := repair_count0, errors := []\<rparr>))"

subsection \<open>Edges\<close>

definition route_strategy :: "agent_state \<Rightarrow> string" where
  "route_strategy s = strategy s"

definition check_execution :: "agent_state \<Rightarrow> string" where
  "check_execution s =
     (if errors s \<noteq> [] \<and> repair_count s < 2 then ''repair'' else ''synthesize'')"

definition route_retriever :: "agent_state \<Rightarrow> string" where
  "route_retriever s = (if strategy s = ''rag'' then ''synthesizer'' else ''planner'')"

datatype node = Router | Retriever | Planner | SqlGenerator | Executor | Synthesizer | Repair

definition run_node :: "env \<Rightarrow> nat \<Rightarrow> node \<Rightarrow> agent_state \<Rightarrow> exn + agent_state" where
  "run_node ev t n s =
     (case n of
        Router \<Rightarrow> router_node ev t s
      | Retriever \<Rightarrow> retriever_node ev t s
      | Planner \<Rightarrow> planner_node ev t s
      | SqlGenerator \<Rightarrow> sql_generator_node ev t s
      | Executor \<Rightarrow> executor_node ev t s
      | Synthesizer \<Rightarrow> synthesizer_node ev t s
      | Repair \<Rightarrow> repair_node ev t s)"

text \<open>
  A conditional edge looks the value of its routing function up in its path map; a
  value that is not a key of the map is an error of the engine. \<open>None\<close> is \<open>END\<close>.
\<close>

definition conditional_edge :: "string \<Rightarrow> (string \<times> node) list \<Rightarrow> exn + node option" where
  "conditional_edge k path_map =
     (case map_of path_map k of
        None \<Rightarrow> Inl ([apostrophe] @ k @ [apostrophe])
      | Some n \<Rightarrow> Inr (Some n))"

definition next_node :: "node \<Rightarrow> agent_state \<Rightarrow> exn + node option" where
  "next_node n s =
     (case n of
        Router \<Rightarrow>
          conditional_edge (route_strategy s)
            [(''rag'', Retriever), (''sql'', Planner), (''hybrid'', Retriever)]
      | Retriever \<Rightarrow>
          conditional_edge (route_retriever s)
            [(''synthesizer'', Synthesizer), (''planner'', Planner)]
      | Planner \<Rightarrow> Inr (Some SqlGenerator)
      | SqlGenerator \<Rightarrow> Inr (Some Executor)
      | Executor \<Rightarrow>
          conditional_edge (check_execution s)
            [(''repair'', Repair), (''synthesize'', Synthesizer)]
      | Repair \<Rightarrow> Inr (Some SqlGenerator)
      | Synthesizer \<Rightarrow> Inr None)"

subsection \<open>The engine\<close>

lemma run_node_repair_count:
  assumes "run_node ev t n s = Inr s'"
  shows "repair_count s' = (if n = Repair then repair_count s + 1 else repair_count s)"
proof (cases n)
  case Router
  with assms show ?thesis
    by (auto simp: run_node_def router_node_def Let_def split: sum.splits)
next
  case Retriever
  with assms show ?thesis
    by (auto simp: run_node_def retriever_node_def split: sum.splits)
next
  case Planner
  with assms show ?thesis
    by (auto simp: run_node_def planner_node_def)
next
  case SqlGenerator
  with assms show ?thesis
    by (auto simp: run_node_def sql_generator_node_def Let_def split: sum.splits if_splits)
next
  case Executor
  with assms show ?thesis
    by (auto simp: run_node_def executor_node_def Let_def split: option.splits if_splits)
next
  case Synthesizer
  with assms show ?thesis
    by (auto simp: run_node_def synthesizer_node_def Let_def split: sum.splits)
next
  case Repair
  with assms show ?thesis
    by (auto simp: run_node_def repair_node_def Let_def split: sum.splits if_splits)
qed

lemma conditional_edge_Some:
  "conditional_edge k path_map = Inr (Some n) \<Longrightarrow> (k, n) \<in> set path_map"
  by (auto simp: conditional_edge_def split: option.splits dest: map_of_SomeD)

lemma next_node_Executor:
  assumes "next_node Executor s = Inr (Some n)"
  shows "n = Synthesizer \<or> (n = Repair \<and> errors s \<noteq> [] \<and> repair_count s < 2)"
  using assms
  by (auto simp: next_node_def check_execution_def split: if_splits dest!: conditional_edge_Some)

text \<open>
  The measure of the traversal: three nodes for each repair that is still allowed, and
  the rank of the node on the way from the router to the synthesizer.
\<close>

definition graph_measure :: "node \<Rightarrow> agent_state \<Rightarrow> nat" where
  "graph_measure n s =
     (let k = nat (2 - repair_count s)
      in case n of
           Router \<Rightarrow> 3 * k + 5
         | Retriever \<Rightarrow> 3 * k + 4
         | Planner \<Rightarrow> 3 * k + 3
         | SqlGenerator \<Rightarrow> 3 * k + 2
         | Executor \<Rightarrow> 3 * k + 1
         | Repair \<Rightarrow> (if repair_count s < 2 then 3 * k else 3)
         | Synthesizer \<Rightarrow> 0)"

lemma edge_decreases:
  assumes run: "run_node ev t n s = Inr s'" and nxt: "next_node n s' = Inr (Some n')"
  shows "graph_measure n' s' < graph_measure n s"
proof (cases n)
  case Router
  then have "n' = Retriever \<or> n' = Planner"
    using nxt by (auto simp: next_node_def dest!: conditional_edge_Some)
  with Router run_node_repair_count[OF run] show ?thesis
    by (auto simp: graph_measure_def)
next
  case Retriever
  then have "n' = Synthesizer \<or> n' = Planner"
    using nxt by (auto simp: next_node_def dest!: conditional_edge_Some)
  with Retriever run_node_repair_count[OF run] show ?thesis
    by (auto simp: graph_measure_def)
next
  case Planner
  with nxt run_node_repair_count[OF run] show ?thesis
    by (auto simp: next_node_def graph_measure_def)
next
  case SqlGenerator
  with nxt run_node_repair_count[OF run] show ?thesis
    by (auto simp: next_node_def graph_measure_def)
next
  case Executor
  with nxt next_node_Executor[of s' n'] run_node_repair_count[OF run] show ?thesis
    by (auto simp: graph_measure_def)
next
  case Synthesizer
  with nxt show ?thesis
    by (simp add: next_node_def)
next
  case Repair
  with nxt run_node_repair_count[OF run] show ?thesis
    by (auto simp: next_node_def graph_measure_def)
qed

text \<open>
  The compiled graph: run the node, store its update, follow the edge. The result is the
  nodes that ran, in order, and the final state or the exception that ended the run.
\<close>

function traverse :: "env \<Rightarrow> nat \<Rightarrow> node \<Rightarrow> agent_state \<Rightarrow> node list \<times> (exn + agent_state)" where
  "traverse ev t n s =
     (case run_node ev t n s of
        Inl e \<Rightarrow> ([n], Inl e)
      | Inr s' \<Rightarrow>
          (case next_node n s' of
             Inl e \<Rightarrow> ([n], Inl e)
           | Inr None \<Rightarrow> ([n], Inr s')
           | Inr (Some n') \<Rightarrow>
               (case traverse ev (Suc t) n' s' of (visited, outcome) \<Rightarrow> (n # visited, outcome))))"
  by pat_completeness auto
termination
  by (relation "measure (\<lambda>(ev, t, n, s). graph_measure n s)") (auto dest: edge_decreases)

text \<open>\<open>app.invoke(initial_state)\<close>, the entry point being the router.\<close>

definition invoke :: "env \<Rightarrow> agent_state \<Rightarrow> exn + agent_state" where
  "invoke ev s = snd (traverse ev 0 Router s)"

definition visited_nodes :: "env \<Rightarrow> agent_state \<Rightarrow> node list" where
  "visited_nodes ev s = fst (traverse ev 0 Router s)"

section \<open>The batch driver (\<open>run_agent_hybrid.py\<close>)\<close>

text \<open>
  A line of the input file, parsed, and a line of the output file before it is
  serialised. \<open>0.8\<close>, \<open>0.4\<close> and \<open>0.0\<close> are the decimal literals of the source.
\<close>

record question_record =
  q_id :: string
  q_question :: string
  q_format_hint :: string

record output_record =
  out_id :: string
  out_final_answer :: "string option"
  out_sql :: string
  out_confidence :: real
  out_explanation :: string
  out_citations :: "string list"

definition initial_state :: "question_record \<Rightarrow> agent_state" where
  "initial_state q =
     \<lparr>question = q_question q, format_hint = q_format_hint q, strategy = [],
      context_chunks = [], schema = [], sql_query = [], sql_result = None,
      final_answer = None, explanation = [], citations = [], errors = [],
      repair_count = 0\<rparr>"

text \<open>The body of the loop over the questions: the \<open>try\<close> and its \<open>except\<close>.\<close>

definition answer_question :: "env \<Rightarrow> question_record \<Rightarrow> output_record" where
  "answer_question ev q =
     (case invoke ev (initial_state q) of
        Inr final_state \<Rightarrow>
          \<lparr>out_id = q_id q,
           out_final_answer = final_answer final_state,
           out_sql = sql_query final_state,
           out_confidence = (if errors final_state = [] then 0.8 else 0.4),
           out_explanation = explanation final_state,
           out_citations = citations final_state\<rparr>
      | Inl e \<Rightarrow>
          \<lparr>out_id = q_id q,
           out_final_answer = Some ''Error processing request.'',
           out_sql = [],
           out_confidence = 0.0,
           out_explanation = e,
           out_citations = []\<rparr>)"

text \<open>
  The loop: \<open>results\<close> grows by one record for each question. The world the \<open>i\<close>-th
  question runs in is \<open>envs i\<close>.
\<close>

fun process_loop :: "(nat \<Rightarrow> env) \<Rightarrow> nat \<Rightarrow> question_record list \<Rightarrow> output_record list \<Rightarrow> output_record list" where
  "process_loop envs i [] results = results"
| "process_loop envs i (q # questions) results =
     process_loop envs (Suc i) questions (results @ [answer_question (envs i) q])"

definition process_questions :: "(nat \<Rightarrow> env) \<Rightarrow> question_record list \<Rightarrow> output_record list" where
  "process_questions envs questions = process_loop envs 0 questions []"

section \<open>Concrete inputs\<close>

text \<open>
  A database with one table, and a world in which the language model first asks for a table
  that does not exist and then for \<open>sqlite_master\<close>, which SQLite answers although the
  list of tables does not contain it.
\<close>

definition demo_db :: database where
  "demo_db =
     \<lparr>tables = [(''Orders'', [(''OrderID'', ''INTEGER'')])],
      catalogue_failure = None,
      run = (\<lambda>q. if q = ''SELECT 1 FROM sqlite_master'' then Inr ([''1''], [[SqlInteger 1]])
                 else Inl ''no such table: t'')\<rparr>"

definition demo_env :: env where
  "demo_env =
     \<lparr>router_oracle = (\<lambda>t q. Inr ''SQL''),
      sql_oracle = (\<lambda>t q sc. Inr (if t \<le> 2 then ''SELECT 1 FROM t''
                                  else ''SELECT 1 FROM sqlite_master'')),
      synth_oracle = (\<lambda>t q c sq sr fh. Inr (''1'', ''one'')),
      db_at = (\<lambda>t. demo_db),
      docs_at = (\<lambda>t. Inr [(''policy.md'', ''Returns within 30 days'')]),
      tfidf_fit = (\<lambda>c. Inr (\<lambda>q i. 1 / 2)),
      tie_rank = (\<lambda>xs i. 0),
      hash_rank = (\<lambda>xs x. 0)\<rparr>"

definition demo_question :: question_record where
  "demo_question = \<lparr>q_id = ''q1'', q_question = ''How many orders?'', q_format_hint = ''int''\<rparr>"

definition demo_catalog :: catalog where
  "demo_catalog =
     \<lparr>valid_tables = [''orders''], valid_columns = [(''orders'', [''orderid''])],
      column_rank = (\<lambda>xs x. 0)\<rparr>"

definition demo_schema :: string where
  "demo_schema = ''Table: Orders'' @ [newline] @ ''  - OrderID (INTEGER)'' @ [newline, newline]"

definition demo_table_error :: "string \<Rightarrow> string" where
  "demo_table_error tb =
     ''Table '' @ [apostrophe] @ tb @ [apostrophe]
     @ '' does not exist in schema. Valid tables: orders''"

definition demo_invalid_state :: agent_state where
  "demo_invalid_state =
     (initial_state demo_question)
       \<lparr>sql_query := ''SELECT 1 FROM t'', schema := demo_schema, errors := [demo_table_error ''t'']\<rparr>"

definition demo_flagged_state :: agent_state where
  "demo_flagged_state =
     (initial_state demo_question)
       \<lparr>sql_query := ''SELECT 1 FROM sqlite_master'', schema := demo_schema,
        errors := [demo_table_error ''sqlite_master'']\<rparr>"

definition demo_failing_env :: env where
  "demo_failing_env = demo_env\<lparr>sql_oracle := (\<lambda>t q sc. Inl ''connection refused'')\<rparr>"

definition demo_final_state :: agent_state where
  "demo_final_state =
     \<lparr>question = ''How many orders?'', format_hint = ''int'', strategy = ''sql'',
      context_chunks = [], schema = demo_schema, sql_query = ''SELECT 1 FROM sqlite_master'',
      sql_result = Some \<lparr>columns = [''1''], rows = [[SqlInteger 1]], error = None\<rparr>,
      final_answer = Some ''1'', explanation = ''one'', citations = [],
      errors = [demo_table_error ''sqlite_master''], repair_count = 2\<rparr>"

definition demo_envs :: "nat \<Rightarrow> env" where
  "demo_envs i = (if i = 0 then demo_failing_env else demo_env)"

text \<open>A world in which the router answers \<open>rag\<close>, and the only chunk of its corpus.\<close>

definition demo_rag_env :: env where
  "demo_rag_env = demo_env\<lparr>router_oracle := (\<lambda>t q. Inr ''rag'')\<rparr>"

definition demo_chunk :: chunk where
  "demo_chunk =
     \<lparr>chunk_id = ''policy::chunk0'', content = ''Returns within 30 days'', source = ''policy''\<rparr>"

definition demo_rag_final_state :: agent_state where
  "demo_rag_final_state =
     (initial_state demo_question)
       \<lparr>strategy := ''rag'',
        context_chunks := [chunk.extend demo_chunk (scored_chunk.fields (1 / 2))],
        final_answer := Some ''1'', explanation := ''one'', citations := [''policy::chunk0'']\<rparr>"

text \<open>
  A catalogue with the table \<open>Order Details\<close>, and five statements that read from it
  under three spellings of its name; a name with a space has to be quoted in SQL.
\<close>

definition order_details_queries :: "string list" where
  "order_details_queries =
     [''SELECT * FROM OrderDetails'',
      ''SELECT * FROM orderdetails'',
      ''SELECT * FROM '' @ [double_quote] @ ''Order Details'' @ [double_quote],
      ''SELECT * FROM [Order Details]'',
      ''SELECT * FROM '' @ [backtick] @ ''Order Details'' @ [backtick]]"

definition demo_order_details_db :: database where
  "demo_order_details_db =
     \<lparr>tables = [(''Order Details'', [(''OrderID'', ''INTEGER'')])],
      catalogue_failure = None,
      run = (\<lambda>q. Inr ([''OrderID''], []))\<rparr>"

definition demo_order_details_catalog :: catalog where
  "demo_order_details_catalog =
     \<lparr>valid_tables = [''order details''], valid_columns = [(''order details'', [''orderid''])],
      column_rank = (\<lambda>xs x. 0)\<rparr>"

section \<open>Steps of a run, and a bound on the generations\<close>

text \<open>
  How many times the generator can still run from a node: once for the way to it, once
  more for each repair that is still allowed.
\<close>

definition generations_left :: "node \<Rightarrow> agent_state \<Rightarrow> nat" where
  "generations_left n s =
     (case n of
        Synthesizer \<Rightarrow> 0
      | Executor \<Rightarrow> nat (2 - repair_count s)
      | Repair \<Rightarrow> 1 + nat (2 - (repair_count s + 1))
      | _ \<Rightarrow> 1 + nat (2 - repair_count s))"

text \<open>
  The \<open>k\<close>-th step of the run that starts with node \<open>n\<close> and state \<open>s\<close> at tick
  \<open>t\<close>: the node that is about to run and the state it receives, or \<open>None\<close> when the
  run has ended before.
\<close>

fun configuration :: "env \<Rightarrow> nat \<Rightarrow> node \<Rightarrow> agent_state \<Rightarrow> nat \<Rightarrow> (node \<times> agent_state) option" where
  "configuration ev t n s 0 = Some (n, s)"
| "configuration ev t n s (Suc k) =
     (case run_node ev t n s of
        Inl e \<Rightarrow> None
      | Inr s' \<Rightarrow>
          (case next_node n s' of
             Inr (Some n') \<Rightarrow> configuration ev (Suc t) n' s' k
           | _ \<Rightarrow> None))"

section \<open>Names without their spaces\<close>

text \<open>
  What \<open>replace(" ", "")\<close> leaves of a string; the third strategy of the table check
  compares these.
\<close>

definition without_spaces :: "string \<Rightarrow> string" where
  "without_spaces s = filter (\<lambda>c. c \<noteq> CHR '' '') s"

section \<open>Properties of the engine\<close>

declare traverse.simps [simp del]

lemma traverse_raise:
  "run_node ev t n s = Inl e \<Longrightarrow> traverse ev t n s = ([n], Inl e)"
  by (subst traverse.simps) simp

lemma traverse_end:
  "run_node ev t n s = Inr s' \<Longrightarrow> next_node n s' = Inr None \<Longrightarrow> traverse ev t n s = ([n], Inr s')"
  by (subst traverse.simps) simp

lemma traverse_edge_raise:
  "run_node ev t n s = Inr s' \<Longrightarrow> next_node n s' = Inl e \<Longrightarrow> traverse ev t n s = ([n], Inl e)"
  by (subst traverse.simps) simp

lemma traverse_step:
  "run_node ev t n s = Inr s' \<Longrightarrow> next_node n s' = Inr (Some n') \<Longrightarrow>
   traverse ev t n s = (n # fst (traverse ev (Suc t) n' s'), snd (traverse ev (Suc t) n' s'))"
  by (subst traverse.simps) (simp add: case_prod_beta)

lemma next_node_END: "next_node n s = Inr None \<Longrightarrow> n = Synthesizer"
  by (cases n) (auto simp: next_node_def conditional_edge_def split: option.splits)

lemma router_node_strategy:
  "router_node ev t s = Inr s' \<Longrightarrow> strategy s' \<in> {''sql'', ''rag'', ''hybrid''}"
  by (auto simp: router_node_def Let_def split: sum.splits if_splits)

lemma next_node_returns:
  assumes "run_node ev t n s = Inr s'"
  shows "\<exists>m. next_node n s' = Inr m"
proof (cases n)
  case Router
  with assms have "strategy s' \<in> {''sql'', ''rag'', ''hybrid''}"
    using router_node_strategy[of ev t s s'] by (simp add: run_node_def)
  with Router show ?thesis
    by (auto simp: next_node_def route_strategy_def conditional_edge_def)
qed (simp_all add: next_node_def route_retriever_def check_execution_def conditional_edge_def)

text \<open>Any run that returns a final state has the synthesizer as its last node.\<close>

lemma traverse_final_last:
  "snd (traverse ev t n s) = Inr f \<Longrightarrow> last (fst (traverse ev t n s)) = Synthesizer"
proof (induction ev t n s rule: traverse.induct)
  case (1 ev t n s)
  show ?case
  proof (cases "run_node ev t n s")
    case (Inl e)
    with 1(2) show ?thesis by (simp add: traverse_raise)
  next
    case (Inr s')
    show ?thesis
    proof (cases "next_node n s'")
      case (Inl e)
      with Inr 1(2) show ?thesis by (simp add: traverse_edge_raise)
    next
      case nx: (Inr m)
      show ?thesis
      proof (cases m)
        case None
        with Inr nx show ?thesis
          by (simp add: traverse_end next_node_END)
      next
        case (Some n')
        have ne: "fst (traverse ev (Suc t) n' s') \<noteq> []"
          by (subst traverse.simps) (auto split: sum.splits option.splits prod.splits)
        from Inr nx Some 1(2) have "snd (traverse ev (Suc t) n' s') = Inr f"
          by (simp add: traverse_step)
        with 1(1)[OF Inr] nx Some have "last (fst (traverse ev (Suc t) n' s')) = Synthesizer"
          by simp
        with Inr nx Some ne show ?thesis
          by (simp add: traverse_step)
      qed
    qed
  qed
qed

text \<open>When no node raises, the run returns a final state.\<close>

lemma traverse_returns:
  "(\<forall>t n s. \<exists>s'. run_node ev t n s = Inr s') \<Longrightarrow> \<exists>f. snd (traverse ev t n s) = Inr f"
proof (induction ev t n s rule: traverse.induct)
  case (1 ev t n s)
  from 1(2) obtain s' where run: "run_node ev t n s = Inr s'"
    by blast
  from next_node_returns[OF run] obtain m where nx: "next_node n s' = Inr m"
    by blast
  show ?case
  proof (cases m)
    case None
    with run nx show ?thesis
      by (simp add: traverse_end)
  next
    case (Some n')
    from 1(1)[OF run nx Some 1(2)] obtain f where "snd (traverse ev (Suc t) n' s') = Inr f"
      by blast
    with run nx Some show ?thesis
      by (simp add: traverse_step)
  qed
qed

lemma edge_generations:
  assumes run: "run_node ev t n s = Inr s'" and nxt: "next_node n s' = Inr (Some n')"
  shows "(if n = SqlGenerator then 1 else 0) + generations_left n' s' \<le> generations_left n s"
proof (cases n)
  case Router
  then have "n' = Retriever \<or> n' = Planner"
    using nxt by (auto simp: next_node_def dest!: conditional_edge_Some)
  with Router run_node_repair_count[OF run] show ?thesis
    by (auto simp: generations_left_def)
next
  case Retriever
  then have "n' = Synthesizer \<or> n' = Planner"
    using nxt by (auto simp: next_node_def dest!: conditional_edge_Some)
  with Retriever run_node_repair_count[OF run] show ?thesis
    by (auto simp: generations_left_def)
next
  case Planner
  with nxt run_node_repair_count[OF run] show ?thesis
    by (auto simp: next_node_def generations_left_def)
next
  case SqlGenerator
  with nxt run_node_repair_count[OF run] show ?thesis
    by (auto simp: next_node_def generations_left_def)
next
  case Executor
  with nxt next_node_Executor[of s' n'] run_node_repair_count[OF run] show ?thesis
    by (auto simp: generations_left_def)
next
  case Synthesizer
  with nxt show ?thesis
    by (simp add: next_node_def)
next
  case Repair
  with nxt run_node_repair_count[OF run] show ?thesis
    by (auto simp: next_node_def generations_left_def)
qed

lemma traverse_generations:
  "count_list (fst (traverse ev t n s)) SqlGenerator \<le> generations_left n s"
proof (induction ev t n s rule: traverse.induct)
  case (1 ev t n s)
  have single: "count_list [n] SqlGenerator \<le> generations_left n s"
    by (cases n) (simp_all add: generations_left_def)
  show ?case
  proof (cases "run_node ev t n s")
    case (Inl e)
    with single show ?thesis by (simp add: traverse_raise)
  next
    case (Inr s')
    show ?thesis
    proof (cases "next_node n s'")
      case (Inl e)
      with Inr single show ?thesis by (simp add: traverse_edge_raise)
    next
      case nx: (Inr m)
      show ?thesis
      proof (cases m)
        case None
        with Inr nx single show ?thesis
          by (simp add: traverse_end)
      next
        case (Some n')
        have "count_list (fst (traverse ev (Suc t) n' s')) SqlGenerator \<le> generations_left n' s'"
          using 1[OF Inr nx Some] .
        moreover have "(if n = SqlGenerator then 1 else 0) + generations_left n' s'
                         \<le> generations_left n s"
          using edge_generations[OF Inr] nx Some by simp
        ultimately show ?thesis
          using Inr nx Some by (auto simp: traverse_step split: if_splits)
      qed
    qed
  qed
qed

lemma traverse_nonempty: "fst (traverse ev t n s) \<noteq> []"
  by (subst traverse.simps) (auto split: sum.splits option.splits prod.splits)

text \<open>A run that ends with an exception: the last node it visited raised it.\<close>

lemma traverse_raised:
  "snd (traverse ev t n s) = Inl e \<Longrightarrow>
   \<exists>k n' s'. configuration ev t n s k = Some (n', s') \<and> run_node ev (t + k) n' s' = Inl e
     \<and> length (fst (traverse ev t n s)) = Suc k \<and> last (fst (traverse ev t n s)) = n'"
proof (induction ev t n s rule: traverse.induct)
  case (1 ev t n s)
  show ?case
  proof (cases "run_node ev t n s")
    case (Inl e')
    with 1(2) have "e' = e" by (simp add: traverse_raise)
    with Inl have "configuration ev t n s 0 = Some (n, s) \<and> run_node ev (t + 0) n s = Inl e
        \<and> length (fst (traverse ev t n s)) = Suc 0 \<and> last (fst (traverse ev t n s)) = n"
      by (simp add: traverse_raise)
    then show ?thesis by blast
  next
    case (Inr s')
    from next_node_returns[OF Inr] obtain m where nx: "next_node n s' = Inr m"
      by blast
    show ?thesis
    proof (cases m)
      case None
      with Inr nx 1(2) show ?thesis
        by (simp add: traverse_end)
    next
      case (Some n')
      from Inr nx Some 1(2) have "snd (traverse ev (Suc t) n' s') = Inl e"
        by (simp add: traverse_step)
      from 1(1)[OF Inr nx Some this] obtain k n'' s''
        where k: "configuration ev (Suc t) n' s' k = Some (n'', s'')"
          "run_node ev (Suc t + k) n'' s'' = Inl e"
          "length (fst (traverse ev (Suc t) n' s')) = Suc k"
          "last (fst (traverse ev (Suc t) n' s')) = n''"
        by blast
      have "configuration ev t n s (Suc k) = Some (n'', s'')
          \<and> run_node ev (t + Suc k) n'' s'' = Inl e
          \<and> length (fst (traverse ev t n s)) = Suc (Suc k)
          \<and> last (fst (traverse ev t n s)) = n''"
        using Inr nx Some k traverse_nonempty[of ev "Suc t" n' s']
        by (simp add: traverse_step)
      then show ?thesis by blast
    qed
  qed
qed

text \<open>The node of the \<open>k\<close>-th step is the \<open>k\<close>-th node visited.\<close>

lemma configuration_visited:
  "configuration ev t n s k = Some (n', s') \<Longrightarrow>
   k < length (fst (traverse ev t n s)) \<and> fst (traverse ev t n s) ! k = n'"
proof (induction k arbitrary: t n s)
  case 0
  then show ?case
    using traverse_nonempty[of ev t n s]
    by (subst (2) traverse.simps) (auto split: sum.splits option.splits prod.splits)
next
  case (Suc k)
  from Suc.prems obtain s1 n1 where run: "run_node ev t n s = Inr s1"
    and nx: "next_node n s1 = Inr (Some n1)"
    and c: "configuration ev (Suc t) n1 s1 k = Some (n', s')"
    by (auto split: sum.splits option.splits)
  from Suc.IH[OF c] run nx show ?case
    by (simp add: traverse_step)
qed

section \<open>Properties of the retrieval\<close>

lemma concat_singletons_subset:
  "set (concat (map (\<lambda>i. if P i then [g i] else []) is)) \<subseteq> g ` set is"
  by (induction "is") auto

lemma slice_from_subset: "set (slice_from k xs) \<subseteq> set xs"
  by (auto simp: slice_from_def dest: in_set_dropD)

lemma set_argsort: "set (argsort tie xs) = {0..<length xs}"
  by (simp add: argsort_def)

text \<open>Every result of a search is a chunk of the corpus, with a score.\<close>

lemma search_chunk_ids:
  "chunk_id ` set (search r tie query top_k) \<subseteq> chunk_id ` set (chunks r)"
proof (cases "vectorizer r")
  case None
  then show ?thesis by (simp add: search_def)
next
  case (Some v)
  show ?thesis
  proof (cases "chunks r = []")
    case True
    with Some show ?thesis by (simp add: search_def)
  next
    case False
    define sims where "sims = map (v query) [0..<length (chunks r)]"
    define top where "top = rev (slice_from (- top_k) (argsort tie sims))"
    have top: "set top \<subseteq> {0..<length (chunks r)}"
      using slice_from_subset[of "- top_k" "argsort tie sims"]
      by (simp add: top_def set_argsort sims_def)
    have s: "search r tie query top_k
        = concat (map (\<lambda>idx. if sims ! idx > 0
                         then [chunk.extend (chunks r ! idx) (scored_chunk.fields (sims ! idx))]
                         else []) top)"
      unfolding sims_def top_def using Some False by (simp add: search_def Let_def)
    have sub: "set (search r tie query top_k)
        \<subseteq> (\<lambda>idx. chunk.extend (chunks r ! idx) (scored_chunk.fields (sims ! idx))) ` set top"
      unfolding s by (rule concat_singletons_subset)
    have ext: "chunk_id (chunk.extend (chunks r ! idx) (scored_chunk.fields x))
        = chunk_id (chunks r ! idx)" for idx x
      by (simp add: chunk.extend_def chunk.defs scored_chunk.defs)
    show ?thesis
    proof
      fix x assume "x \<in> chunk_id ` set (search r tie query top_k)"
      then obtain c where c: "c \<in> set (search r tie query top_k)" and x: "x = chunk_id c"
        by blast
      from c sub obtain idx where idx: "idx \<in> set top"
        and ce: "c = chunk.extend (chunks r ! idx) (scored_chunk.fields (sims ! idx))"
        by blast
      from idx top have "idx < length (chunks r)"
        by auto
      then have "chunks r ! idx \<in> set (chunks r)"
        by (rule nth_mem)
      then show "x \<in> chunk_id ` set (chunks r)"
        unfolding x ce ext by (rule imageI)
    qed
  qed
qed

lemma section_chunk_id:
  "section_chunk filename isec = Some c \<Longrightarrow> CHR '':'' \<in> set (chunk_id c)"
  by (auto simp: section_chunk_def Let_def split: if_splits)

lemma load_and_chunk_docs_ids:
  "c \<in> set (load_and_chunk_docs md_files) \<Longrightarrow> CHR '':'' \<in> set (chunk_id c)"
  by (auto simp: load_and_chunk_docs_def file_chunks_def Let_def List.map_filter_def
      dest: section_chunk_id)

lemma new_retriever_ids:
  "new_retriever ev t = Inr r \<Longrightarrow> c \<in> set (chunks r) \<Longrightarrow> CHR '':'' \<in> set (chunk_id c)"
  by (auto simp: new_retriever_def build_index_def split: sum.splits if_splits
      dest: load_and_chunk_docs_ids)

lemma cited_tables_no_colon: "tb \<in> set cited_tables \<Longrightarrow> CHR '':'' \<notin> set tb"
  by (auto simp: cited_tables_def)

lemma router_node_frame:
  "router_node ev t s = Inr s' \<Longrightarrow> s' = s\<lparr>strategy := strategy s'\<rparr>"
  by (auto simp: router_node_def Let_def split: sum.splits)

lemma concat_map_if:
  "concat (map (\<lambda>i. if P i then [g i] else []) xs) = map g (filter P xs)"
  by (induction xs) simp_all

lemma length_slice_from: "1 \<le> k \<Longrightarrow> int (length (slice_from (- k) xs)) \<le> k"
  by (simp add: slice_from_def)

lemma sorted_argsort: "sorted (map (\<lambda>i. xs ! i) (argsort tie xs))"
proof -
  have "sorted (map (\<lambda>i. (xs ! i, tie xs i)) (argsort tie xs))"
    unfolding argsort_def by (rule sorted_sort_key)
  then have "sorted_wrt (\<lambda>i j. (xs ! i, tie xs i) \<le> (xs ! j, tie xs j)) (argsort tie xs)"
    by (simp add: sorted_map)
  then have "sorted_wrt (\<lambda>i j. xs ! i \<le> xs ! j) (argsort tie xs)"
    by (rule sorted_wrt_mono_rel[rotated]) (auto simp: less_eq_prod_def)
  then show ?thesis
    by (simp add: sorted_map)
qed

lemma distinct_argsort: "distinct (argsort tie xs)"
  by (simp add: argsort_def)

lemma search_eq:
  assumes "vectorizer r = Some v" and "chunks r \<noteq> []"
  shows "search r tie query top_k
     = map (\<lambda>idx. chunk.extend (chunks r ! idx)
                    (scored_chunk.fields (map (v query) [0..<length (chunks r)] ! idx)))
         (filter (\<lambda>idx. map (v query) [0..<length (chunks r)] ! idx > 0)
            (rev (slice_from (- top_k) (argsort tie (map (v query) [0..<length (chunks r)])))))"
  using assms by (simp add: search_def Let_def concat_map_if)

text \<open>
  What the search does for \<open>top_k \<ge> 1\<close>: at most \<open>top_k\<close> results, each with a
  positive score, by descending score, and with different ids when the chunks of the
  corpus have different ids. With an empty corpus there is no result, whatever
  \<open>top_k\<close> is.
\<close>

lemma search_top_k:
  assumes k: "1 \<le> top_k"
  shows "int (length (search r tie query top_k)) \<le> top_k"
    and "\<forall>c\<in>set (search r tie query top_k). score c > 0"
    and "sorted (rev (map score (search r tie query top_k)))"
    and "distinct (map chunk_id (chunks r)) \<Longrightarrow> distinct (map chunk_id (search r tie query top_k))"
proof -
  have all: "int (length (search r tie query top_k)) \<le> top_k
      \<and> (\<forall>c\<in>set (search r tie query top_k). score c > 0)
      \<and> sorted (rev (map score (search r tie query top_k)))
      \<and> (distinct (map chunk_id (chunks r)) \<longrightarrow> distinct (map chunk_id (search r tie query top_k)))"
  proof (cases "vectorizer r")
    case None
    with k show ?thesis by (simp add: search_def)
  next
    case (Some v)
    show ?thesis
    proof (cases "chunks r = []")
      case True
      with Some k show ?thesis by (simp add: search_def)
    next
      case False
      define sims where "sims = map (v query) [0..<length (chunks r)]"
      define cut where "cut = slice_from (- top_k) (argsort tie sims)"
      define kept where "kept = filter (\<lambda>idx. sims ! idx > 0) (rev cut)"
      define ext where "ext = (\<lambda>idx. chunk.extend (chunks r ! idx) (scored_chunk.fields (sims ! idx)))"
      have s: "search r tie query top_k = map ext kept"
        unfolding ext_def kept_def cut_def sims_def by (rule search_eq[OF Some False])
      have sc: "score (ext idx) = sims ! idx" for idx
        by (simp add: ext_def chunk.extend_def chunk.defs scored_chunk.defs)
      have id: "chunk_id (ext idx) = chunk_id (chunks r ! idx)" for idx
        by (simp add: ext_def chunk.extend_def chunk.defs scored_chunk.defs)
      have "length kept \<le> length cut"
        unfolding kept_def using length_filter_le[of _ "rev cut"] by simp
      moreover have "int (length cut) \<le> top_k"
        unfolding cut_def by (rule length_slice_from[OF k])
      ultimately have len: "int (length (search r tie query top_k)) \<le> top_k"
        by (simp add: s)
      have pos: "\<forall>c\<in>set (search r tie query top_k). score c > 0"
        by (auto simp: s sc kept_def)
      have cut_drop: "\<exists>m. cut = drop m (argsort tie sims)"
        unfolding cut_def slice_from_def by auto
      then obtain m where m: "cut = drop m (argsort tie sims)"
        by blast
      have "sorted_wrt (\<lambda>i j. sims ! i \<le> sims ! j) (argsort tie sims)"
        using sorted_argsort[of sims tie] by (simp add: sorted_map)
      then have "sorted_wrt (\<lambda>i j. sims ! i \<le> sims ! j) cut"
        unfolding m by (rule sorted_wrt_drop)
      then have "sorted_wrt (\<lambda>i j. sims ! i \<le> sims ! j) (filter (\<lambda>idx. sims ! idx > 0) cut)"
        by (rule sorted_wrt_filter)
      then have "sorted (map (\<lambda>i. sims ! i) (filter (\<lambda>idx. sims ! idx > 0) cut))"
        by (simp add: sorted_map)
      moreover have "rev (map score (search r tie query top_k))
          = map (\<lambda>i. sims ! i) (filter (\<lambda>idx. sims ! idx > 0) cut)"
        by (simp add: s kept_def rev_map rev_filter sc comp_def)
      ultimately have srt: "sorted (rev (map score (search r tie query top_k)))"
        by simp
      have dk: "distinct kept"
        unfolding kept_def m by (simp add: distinct_argsort)
      have rng: "set kept \<subseteq> {0..<length (chunks r)}"
        unfolding kept_def m using set_drop_subset[of m "argsort tie sims"]
        by (auto simp: set_argsort sims_def)
      have dis: "distinct (map chunk_id (search r tie query top_k))"
        if d: "distinct (map chunk_id (chunks r))"
      proof -
        have "inj_on (\<lambda>idx. chunk_id (chunks r ! idx)) (set kept)"
        proof (rule inj_onI)
          fix i j assume i: "i \<in> set kept" and j: "j \<in> set kept"
            and e: "chunk_id (chunks r ! i) = chunk_id (chunks r ! j)"
          from i j rng have "i < length (chunks r)" "j < length (chunks r)"
            by auto
          with e d show "i = j"
            using nth_eq_iff_index_eq[of "map chunk_id (chunks r)" i j] by simp
        qed
        with dk have "distinct (map (\<lambda>idx. chunk_id (chunks r ! idx)) kept)"
          by (simp add: distinct_map)
        then show ?thesis
          by (simp add: s id comp_def)
      qed
      from len pos srt dis show ?thesis by blast
    qed
  qed
  from all show "int (length (search r tie query top_k)) \<le> top_k"
    and "\<forall>c\<in>set (search r tie query top_k). score c > 0"
    and "sorted (rev (map score (search r tie query top_k)))"
    and "distinct (map chunk_id (chunks r)) \<Longrightarrow> distinct (map chunk_id (search r tie query top_k))"
    by blast+
qed

lemma search_empty_corpus: "chunks r = [] \<Longrightarrow> search r tie query top_k = []"
  by (simp add: search_def split: option.splits)

section \<open>Evaluation of the concrete inputs\<close>

lemmas char_eval = startswith_def startswith_ci_def lower_def lower_char_def re_word_def
  py_isspace_def ascii_lower_def ascii_upper_def table_opener_def table_closer_def
  backtick_def double_quote_def apostrophe_def newline_def Let_def char_of_def bit_Suc_0_iff

lemma demo_get_schema:
  "get_schema demo_db None = Inr demo_schema"
  "get_schema demo_db (Some [''Orders'']) = Inr demo_schema"
  by (simp_all add: get_schema_def demo_db_def demo_schema_def render_table_def)

lemma demo_get_all_tables: "get_all_tables demo_db = Inr [''Orders'']"
  by (simp add: get_all_tables_def demo_db_def)

lemma demo_extract_columns: "extract_columns_from_schema demo_schema = [''OrderID'']"
  by (simp add: extract_columns_from_schema_def split_def List.map_filter_def
      match_column_line_def demo_schema_def strip_def char_eval)

lemma demo_new_validator: "new_validator (\<lambda>xs x. 0) demo_db = Inr demo_catalog"
  by (simp add: new_validator_def demo_get_all_tables demo_get_schema demo_extract_columns
      demo_catalog_def lower_def lower_char_def Let_def char_of_def bit_Suc_0_iff)

lemma demo_clean_sql:
  "clean_sql ''SELECT 1 FROM t'' = ''SELECT 1 FROM t''"
  "clean_sql ''SELECT 1 FROM sqlite_master'' = ''SELECT 1 FROM sqlite_master''"
  by (simp_all add: clean_sql_def code_fence_def strip_def char_eval)

lemma demo_findall_table:
  "findall_table False ''SELECT 1 FROM t'' = [''t'']"
  "findall_table False ''SELECT 1 FROM sqlite_master'' = [''sqlite_master'']"
  by (simp_all add: match_table_def char_eval)

lemma demo_findall_column:
  "findall_column False ''SELECT 1 FROM t'' = []"
  "findall_column False ''SELECT 1 FROM sqlite_master'' = []"
  by (simp_all add: match_column_def char_eval)

lemma demo_cte_names:
  "cte_names_of ''SELECT 1 FROM t'' = []"
  "cte_names_of ''SELECT 1 FROM sqlite_master'' = []"
  by (simp_all add: cte_names_of_def char_eval)

lemma demo_strip_sql:
  "strip ''SELECT 1 FROM t'' \<noteq> []"
  "strip ''SELECT 1 FROM sqlite_master'' \<noteq> []"
  by (simp_all add: strip_def char_eval)

lemma demo_strip_table:
  "strip ''t'' = ''t''"
  "strip ''sqlite_master'' = ''sqlite_master''"
  by (simp_all add: strip_def char_eval)

lemma demo_table_unknown2:
  "\<not> table_known demo_catalog ''t''"
  "\<not> table_known demo_catalog ''sqlite_master''"
  by (simp_all add: table_known_def demo_catalog_def char_eval)

lemma demo_table_error: "table_error demo_catalog tb = demo_table_error tb"
  by (simp add: table_error_def demo_table_error_def demo_catalog_def)

lemma demo_check_tables:
  "check_tables demo_catalog [] [''t''] [] = [demo_table_error ''t'']"
  "check_tables demo_catalog [] [''sqlite_master''] [] = [demo_table_error ''sqlite_master'']"
  by (simp_all add: demo_strip_table demo_table_unknown2 demo_table_error)

lemma demo_validate_sql:
  "validate_sql demo_catalog ''SELECT 1 FROM t''
     = \<lparr>valid = False, val_errors = [demo_table_error ''t'']\<rparr>"
  "validate_sql demo_catalog ''SELECT 1 FROM sqlite_master''
     = \<lparr>valid = False, val_errors = [demo_table_error ''sqlite_master'']\<rparr>"
  by (simp_all add: validate_sql_def demo_strip_sql demo_findall_table demo_findall_column
      demo_cte_names demo_check_tables
      del: findall_table.simps findall_column.simps check_tables.simps)

lemma demo_sql_oracle:
  "sql_oracle demo_env 2 q sc = Inr ''SELECT 1 FROM t''"
  "sql_oracle demo_env 5 q sc = Inr ''SELECT 1 FROM sqlite_master''"
  "db_at demo_env t = demo_db"
  "hash_rank demo_env = (\<lambda>xs x. 0)"
  by (simp_all add: demo_env_def)

lemma demo_sql_generator:
  "sql_generator_node demo_env 2 (initial_state demo_question) = Inr demo_invalid_state"
  "sql_generator_node demo_env 5 (initial_state demo_question) = Inr demo_flagged_state"
  by (simp_all add: sql_generator_node_def demo_sql_oracle demo_get_schema demo_new_validator
      demo_clean_sql demo_validate_sql demo_invalid_state_def demo_flagged_state_def)

lemma demo_router_node:
  "router_node demo_env t s = Inr (s\<lparr>strategy := ''sql''\<rparr>)"
  "router_node demo_failing_env t s = Inr (s\<lparr>strategy := ''sql''\<rparr>)"
  by (simp_all add: router_node_def demo_env_def demo_failing_env_def strip_def char_eval)

lemma demo_sql_generator_node:
  "t \<le> 2 \<Longrightarrow> sql_generator_node demo_env t s
     = Inr (s\<lparr>sql_query := ''SELECT 1 FROM t'', schema := demo_schema,
              errors := [demo_table_error ''t'']\<rparr>)"
  "2 < t \<Longrightarrow> sql_generator_node demo_env t s
     = Inr (s\<lparr>sql_query := ''SELECT 1 FROM sqlite_master'', schema := demo_schema,
              errors := [demo_table_error ''sqlite_master'']\<rparr>)"
  by (simp_all add: sql_generator_node_def demo_env_def demo_get_schema demo_new_validator
      demo_clean_sql demo_validate_sql)

lemma demo_failing_generator:
  "sql_generator_node demo_failing_env t s = Inl ''connection refused''"
  by (simp add: sql_generator_node_def demo_failing_env_def demo_env_def demo_get_schema)

lemma demo_executor_node:
  "sql_query s = ''SELECT 1 FROM t'' \<Longrightarrow> executor_node demo_env t s
     = Inr (s\<lparr>sql_result := Some \<lparr>columns = [], rows = [], error = Some ''no such table: t''\<rparr>,
              errors := [''no such table: t'']\<rparr>)"
  "sql_query s = ''SELECT 1 FROM sqlite_master'' \<Longrightarrow> executor_node demo_env t s
     = Inr (s\<lparr>sql_result := Some \<lparr>columns = [''1''], rows = [[SqlInteger 1]], error = None\<rparr>\<rparr>)"
  by (simp_all add: executor_node_def execute_query_def demo_env_def demo_db_def)

lemma demo_repair_node:
  "repair_node demo_env t s = Inr (s\<lparr>repair_count := repair_count s + 1, errors := []\<rparr>)"
  by (simp add: repair_node_def Let_def demo_sql_oracle demo_new_validator)

lemma demo_no_cited_table:
  "filter (\<lambda>tb. py_in (lower tb) (lower ''SELECT 1 FROM sqlite_master'')
                 \<or> py_in (lower (replace tb '' '' []))
                      (replace (lower ''SELECT 1 FROM sqlite_master'') '' '' []))
      cited_tables = []"
  by (simp add: cited_tables_def char_eval)

lemma demo_synthesizer_node:
  "sql_query s = ''SELECT 1 FROM sqlite_master'' \<Longrightarrow> synthesizer_node demo_env t s
     = Inr (s\<lparr>final_answer := Some ''1'', explanation := ''one'',
              citations := map chunk_id (context_chunks s)\<rparr>)"
  by (simp add: synthesizer_node_def demo_env_def demo_no_cited_table)

lemma demo_run:
  "traverse demo_env 0 Router (initial_state demo_question)
     = ([Router, Planner, SqlGenerator, Executor, Repair, SqlGenerator, Executor, Repair,
         SqlGenerator, Executor, Synthesizer], Inr demo_final_state)"
  by (simp add: traverse.simps run_node_def next_node_def conditional_edge_def route_strategy_def
      check_execution_def planner_node_def demo_router_node demo_sql_generator_node
      demo_executor_node demo_repair_node demo_synthesizer_node demo_final_state_def
      initial_state_def demo_question_def)

lemma demo_failing_run:
  "traverse demo_failing_env 0 Router (initial_state demo_question)
     = ([Router, Planner, SqlGenerator], Inl ''connection refused'')"
  by (simp add: traverse.simps run_node_def next_node_def conditional_edge_def route_strategy_def
      planner_node_def demo_router_node demo_failing_generator)

lemma demo_retriever_returns: "\<exists>s'. retriever_node demo_env t s = Inr s'"
  by (simp add: retriever_node_def new_retriever_def build_index_def demo_env_def)

lemma demo_nodes_return: "\<exists>s'. run_node demo_env t n s = Inr s'"
proof (cases n)
  case SqlGenerator
  then show ?thesis
    using demo_sql_generator_node[of t s] by (cases "t \<le> 2") (auto simp: run_node_def)
next
  case Executor
  then show ?thesis
    by (auto simp: run_node_def executor_node_def Let_def split: option.splits)
next
  case Synthesizer
  then show ?thesis
    by (simp add: run_node_def synthesizer_node_def Let_def demo_env_def)
qed (simp_all add: run_node_def demo_router_node demo_retriever_returns planner_node_def
      demo_repair_node)

lemma demo_failing_configuration:
  "configuration demo_failing_env 0 Router (initial_state demo_question) 2
     = Some (SqlGenerator, (initial_state demo_question)\<lparr>strategy := ''sql''\<rparr>)"
  by (simp add: numeral_2_eq_2 run_node_def next_node_def conditional_edge_def route_strategy_def
      planner_node_def demo_router_node)

lemma demo_rag_router:
  "router_node demo_rag_env t s = Inr (s\<lparr>strategy := ''rag''\<rparr>)"
  by (simp add: router_node_def demo_rag_env_def demo_env_def strip_def char_eval)

lemma demo_load_and_chunk_docs:
  "load_and_chunk_docs [(''policy.md'', ''Returns within 30 days'')] = [demo_chunk]"
  by (simp add: load_and_chunk_docs_def file_chunks_def section_chunk_def split_def
      List.map_filter_def strip_def str_nat.simps[of 0] digit_char_def demo_chunk_def char_eval)

lemma demo_new_retriever:
  "new_retriever demo_rag_env t = Inr \<lparr>chunks = [demo_chunk], vectorizer = Some (\<lambda>q i. 1 / 2)\<rparr>"
  by (simp add: new_retriever_def demo_rag_env_def demo_env_def demo_load_and_chunk_docs
      build_index_def)

lemma demo_search:
  "search \<lparr>chunks = [demo_chunk], vectorizer = Some (\<lambda>q i. 1 / 2)\<rparr> (\<lambda>xs i. 0) query 3
     = [chunk.extend demo_chunk (scored_chunk.fields (1 / 2))]"
  by (simp add: search_def argsort_def slice_from_def)

lemma demo_rag_retriever:
  "retriever_node demo_rag_env t s
     = Inr (s\<lparr>context_chunks := [chunk.extend demo_chunk (scored_chunk.fields (1 / 2))]\<rparr>)"
proof -
  have "tie_rank demo_rag_env = (\<lambda>xs i. 0)"
    by (simp add: demo_rag_env_def demo_env_def)
  then show ?thesis
    by (simp add: retriever_node_def demo_new_retriever demo_search)
qed

lemma demo_rag_synthesizer:
  "sql_query s = [] \<Longrightarrow> synthesizer_node demo_rag_env t s
     = Inr (s\<lparr>final_answer := Some ''1'', explanation := ''one'',
              citations := map chunk_id (context_chunks s)\<rparr>)"
  by (simp add: synthesizer_node_def demo_rag_env_def demo_env_def)

lemma demo_chunk_id: "chunk_id (chunk.extend demo_chunk (scored_chunk.fields x)) = ''policy::chunk0''"
  by (simp add: demo_chunk_def chunk.extend_def chunk.defs scored_chunk.defs)

lemma demo_rag_run:
  "traverse demo_rag_env 0 Router (initial_state demo_question)
     = ([Router, Retriever, Synthesizer], Inr demo_rag_final_state)"
  by (simp add: traverse.simps run_node_def next_node_def conditional_edge_def route_strategy_def
      route_retriever_def demo_rag_router demo_rag_retriever demo_rag_synthesizer demo_chunk_id
      demo_rag_final_state_def initial_state_def)

text \<open>
  The ids of the chunks of two files can coincide: every \<open>.md\<close> is removed from the
  base name of a file, not only the extension.
\<close>

lemma duplicate_chunk_ids:
  "map chunk_id (load_and_chunk_docs [(''a.md'', ''x''), (''a.md.md'', ''x'')])
     = [''a::chunk0'', ''a::chunk0'']"
  by (simp add: load_and_chunk_docs_def file_chunks_def section_chunk_def split_def
      List.map_filter_def strip_def str_nat.simps[of 0] digit_char_def char_eval)

section \<open>The table check\<close>

lemma replace_space: "replace s '' '' [] = without_spaces s"
  by (induction s) (simp_all add: without_spaces_def startswith_def)

lemma lower_char_space: "lower_char c = CHR '' '' \<longleftrightarrow> c = CHR '' ''"
proof
  assume l: "lower_char c = CHR '' ''"
  show "c = CHR '' ''"
  proof (rule ccontr)
    assume n: "c \<noteq> CHR '' ''"
    define m where "m = (of_char c :: nat)"
    have up: "(65 \<le> m \<and> m \<le> 90) \<or> (192 \<le> m \<and> m \<le> 214) \<or> (216 \<le> m \<and> m \<le> 222)"
      using l n by (auto simp: lower_char_def Let_def m_def split: if_splits)
    then have "lower_char c = char_of (m + 32)"
      by (simp add: lower_char_def Let_def m_def)
    then have "(of_char (lower_char c) :: nat) = (m + 32) mod 256"
      by (simp add: of_char_of)
    with up l show False
      by auto
  qed
next
  assume "c = CHR '' ''"
  then show "lower_char c = CHR '' ''"
    by (simp add: lower_char_def)
qed

lemma without_spaces_lower: "without_spaces (lower s) = lower (without_spaces s)"
  by (induction s) (simp_all add: without_spaces_def lower_def lower_char_space)

lemma without_spaces_camel: "without_spaces (camel_to_spaced s) = without_spaces s"
proof (induction s rule: camel_to_spaced.induct)
  case (1 c d cs)
  have "c \<noteq> CHR '' ''" if "ascii_lower c"
    using that by (auto simp: ascii_lower_def)
  with 1 show ?case
    by (auto simp: without_spaces_def)
qed (simp_all add: without_spaces_def)

text \<open>
  The three strategies of the loop, and what they come to: the first two are cases of
  the third, so a candidate is accepted exactly when it is a known table up to letter
  case and spaces.
\<close>

lemma table_known_iff:
  "table_known cat t \<longleftrightarrow>
     (\<exists>v\<in>set (valid_tables cat).
        lower t = v \<or> lower (camel_to_spaced t) = v
        \<or> without_spaces (lower t) = without_spaces v)"
  by (simp add: table_known_def Let_def list_ex_iff replace_space)

lemma table_known_without_spaces:
  "table_known cat t \<longleftrightarrow>
     (\<exists>v\<in>set (valid_tables cat). without_spaces (lower t) = without_spaces v)"
proof -
  have "without_spaces (lower t) = without_spaces v" if "lower (camel_to_spaced t) = v" for v
  proof -
    have "without_spaces v = lower (without_spaces (camel_to_spaced t))"
      using that by (simp add: without_spaces_lower[symmetric])
    then show ?thesis
      by (simp add: without_spaces_camel without_spaces_lower)
  qed
  then show ?thesis
    unfolding table_known_iff by blast
qed

text \<open>The errors of the loop over the candidate tables.\<close>

lemma check_tables_set:
  "set (check_tables cat cte_names found errs)
     = set errs \<union> table_error cat `
         {t \<in> set found. lower (strip t) \<notin> set (map lower cte_names)
                            \<and> \<not> table_known cat (strip t)}"
  by (induction found arbitrary: errs) (auto simp: Let_def)

lemma check_columns_set:
  "set (check_columns cat found errs) \<subseteq> set errs \<union> range (column_error cat)"
proof (induction found arbitrary: errs)
  case Nil
  then show ?case by simp
next
  case (Cons ac found)
  show ?case
  proof (cases "list_ex (\<lambda>table_cols. lower (snd ac) \<in> set (snd table_cols)) (valid_columns cat)")
    case True
    with Cons.IH[of errs] show ?thesis by simp
  next
    case False
    with Cons.IH[of "errs @ [column_error cat (snd ac)]"] show ?thesis by auto
  qed
qed

lemma table_error_inject: "table_error cat t = table_error cat t' \<Longrightarrow> t = t'"
  by (simp add: table_error_def)

lemma column_error_not_table_error: "column_error cat c \<noteq> table_error cat' t"
  by (simp add: column_error_def table_error_def Let_def)

text \<open>
  A table error for a candidate is among the errors of a validation only if the candidate
  is not a CTE name and not a known table.
\<close>

lemma table_error_reported:
  assumes "table_error cat t \<in> set (val_errors (validate_sql cat sql))"
  shows "lower (strip t) \<notin> set (map lower (cte_names_of sql)) \<and> \<not> table_known cat (strip t)"
proof (cases "sql = [] \<or> strip sql = []")
  case True
  with assms show ?thesis
    by (simp add: validate_sql_def)
next
  case False
  define errs1 where "errs1 = check_tables cat (cte_names_of sql) (findall_table False sql) []"
  from False assms have "table_error cat t \<in> set (check_columns cat (findall_column False sql) errs1)"
    by (simp add: validate_sql_def Let_def errs1_def)
  with check_columns_set[of cat "findall_column False sql" errs1]
  have "table_error cat t \<in> set errs1 \<or> table_error cat t \<in> range (column_error cat)"
    by blast
  moreover have "table_error cat t \<notin> range (column_error cat)"
    using column_error_not_table_error[of cat _ cat t] by (metis rangeE)
  ultimately have "table_error cat t \<in> set errs1"
    by blast
  then obtain t' where "table_error cat t = table_error cat t'"
    and t': "lower (strip t') \<notin> set (map lower (cte_names_of sql))" "\<not> table_known cat (strip t')"
    unfolding errs1_def check_tables_set by auto
  then have "t = t'"
    by (simp add: table_error_inject)
  with t' show ?thesis by simp
qed

lemma load_schema_tables:
  "load_schema db ts cat0 = Inr cat \<Longrightarrow> set (valid_tables cat) = set (valid_tables cat0) \<union> lower ` set ts"
proof (induction ts arbitrary: cat0)
  case Nil
  then show ?case by simp
next
  case (Cons table ts)
  then show ?case
    by (auto split: sum.splits)
qed

lemma new_validator_tables:
  "new_validator rank db = Inr cat \<Longrightarrow> set (valid_tables cat) = lower ` fst ` set (tables db)"
proof -
  assume v: "new_validator rank db = Inr cat"
  then have "load_schema db (map fst (tables db))
      \<lparr>valid_tables = [], valid_columns = [], column_rank = rank\<rparr> = Inr cat"
    by (auto simp: new_validator_def get_all_tables_def split: sum.splits option.splits)
  from load_schema_tables[OF this] show ?thesis
    by (simp add: image_image)
qed

text \<open>The statements that read from \<open>Order Details\<close>.\<close>

lemma order_details_strip:
  "strip ''OrderDetails'' = ''OrderDetails''"
  "strip ''orderdetails'' = ''orderdetails''"
  "strip ''Order Details'' = ''Order Details''"
  by (simp_all add: strip_def char_eval)

lemma order_details_known:
  assumes "''order details'' \<in> set (valid_tables cat)"
  shows "table_known cat ''OrderDetails''" "table_known cat ''orderdetails''"
    "table_known cat ''Order Details''"
proof -
  have "lower (camel_to_spaced ''OrderDetails'') = ''order details''"
    "without_spaces (lower ''orderdetails'') = without_spaces ''order details''"
    "lower ''Order Details'' = ''order details''"
    by (simp_all add: without_spaces_def char_eval)
  with assms show "table_known cat ''OrderDetails''" "table_known cat ''orderdetails''"
    "table_known cat ''Order Details''"
    unfolding table_known_iff by blast+
qed

lemma validate_sql_single_known:
  assumes "\<not> (sql = [] \<or> strip sql = [])" and "findall_table False sql = [tb]"
    and "findall_column False sql = []" and "table_known cat (strip tb)"
  shows "validate_sql cat sql = \<lparr>valid = True, val_errors = []\<rparr>"
  using assms by (simp add: validate_sql_def Let_def)

lemma order_details_valid:
  assumes "''order details'' \<in> set (valid_tables cat)"
  shows "map (validate_sql cat) order_details_queries
           = replicate 5 \<lparr>valid = True, val_errors = []\<rparr>"
proof -
  note known = order_details_known[OF assms]
  have q1: "validate_sql cat ''SELECT * FROM OrderDetails'' = \<lparr>valid = True, val_errors = []\<rparr>"
    by (rule validate_sql_single_known[where tb = "''OrderDetails''"])
      (simp_all add: match_table_def match_column_def strip_def char_eval known)
  have q2: "validate_sql cat ''SELECT * FROM orderdetails'' = \<lparr>valid = True, val_errors = []\<rparr>"
    by (rule validate_sql_single_known[where tb = "''orderdetails''"])
      (simp_all add: match_table_def match_column_def strip_def char_eval known)
  have q3: "validate_sql cat (''SELECT * FROM '' @ [double_quote] @ ''Order Details'' @ [double_quote])
      = \<lparr>valid = True, val_errors = []\<rparr>"
    by (rule validate_sql_single_known[where tb = "''Order Details''"])
      (simp_all add: match_table_def match_column_def strip_def char_eval known)
  have q4: "validate_sql cat ''SELECT * FROM [Order Details]'' = \<lparr>valid = True, val_errors = []\<rparr>"
    by (rule validate_sql_single_known[where tb = "''Order Details''"])
      (simp_all add: match_table_def match_column_def strip_def char_eval known)
  have q5: "validate_sql cat (''SELECT * FROM '' @ [backtick] @ ''Order Details'' @ [backtick])
      = \<lparr>valid = True, val_errors = []\<rparr>"
    by (rule validate_sql_single_known[where tb = "''Order Details''"])
      (simp_all add: match_table_def match_column_def strip_def char_eval known)
  show ?thesis
    unfolding order_details_queries_def
    by (simp only: list.map q1 q2 q3 q4 q5) (simp add: eval_nat_numeral)
qed

section \<open>Properties of the validator on blank input\<close>

lemma dropWhile_all: "\<forall>c\<in>set s. P c \<Longrightarrow> dropWhile P s = []"
  by (induction s) simp_all

lemma strip_blank: "\<forall>c\<in>set s. py_isspace c \<Longrightarrow> strip s = []"
  by (simp add: strip_def dropWhile_all)

text \<open>
  Claim C9. For every SQL string that is empty or consists only of whitespace
  characters, \<open>validate_sql\<close> returns \<open>valid = True\<close> with no errors, whatever the
  catalog is: the schema is not consulted.
\<close>

theorem validate_sql_blank:
  assumes "\<forall>c\<in>set sql. py_isspace c"
  shows "validate_sql cat sql = \<lparr>valid = True, val_errors = []\<rparr>"
  using assms by (simp add: validate_sql_def strip_blank)

theorem validate_sql_blank_witness:
  "py_isspace CHR '' '' \<and> py_isspace newline
   \<and> validate_sql \<lparr>valid_tables = [''orders''], valid_columns = [], column_rank = (\<lambda>xs x. 0)\<rparr> [CHR '' '', newline]
       = \<lparr>valid = True, val_errors = []\<rparr>"
proof -
  have h: "\<forall>c\<in>set [CHR '' '', newline]. py_isspace c"
    by (simp add: py_isspace_def newline_def)
  show ?thesis
    using h validate_sql_blank[OF h, of "\<lparr>valid_tables = [''orders''], valid_columns = [], column_rank = (\<lambda>xs x. 0)\<rparr>"]
    by simp
qed

section \<open>The router\<close>

lemma py_in_iff: "py_in p s \<longleftrightarrow> (\<exists>u v. s = u @ p @ v)"
proof (induction s)
  case Nil
  then show ?case by auto
next
  case (Cons c cs)
  have "startswith (c # cs) p \<longleftrightarrow> (\<exists>v. c # cs = p @ v)"
    unfolding startswith_def
    by (metis append_eq_conv_conj append_take_drop_id)
  moreover have "(\<exists>u v. c # cs = u @ p @ v) \<longleftrightarrow> (\<exists>v. c # cs = p @ v) \<or> (\<exists>u v. cs = u @ p @ v)"
  proof
    assume "\<exists>u v. c # cs = u @ p @ v"
    then obtain u v where uv: "c # cs = u @ p @ v" by blast
    show "(\<exists>v. c # cs = p @ v) \<or> (\<exists>u v. cs = u @ p @ v)"
    proof (cases u)
      case Nil
      with uv show ?thesis by auto
    next
      case (Cons a u')
      with uv have "cs = u' @ p @ v" by simp
      then show ?thesis by blast
    qed
  next
    assume "(\<exists>v. c # cs = p @ v) \<or> (\<exists>u v. cs = u @ p @ v)"
    then show "\<exists>u v. c # cs = u @ p @ v"
    proof
      assume "\<exists>v. c # cs = p @ v"
      then obtain v where "c # cs = [] @ p @ v" by auto
      then show ?thesis by blast
    next
      assume "\<exists>u v. cs = u @ p @ v"
      then obtain u v where "c # cs = (c # u) @ p @ v" by auto
      then show ?thesis by blast
    qed
  qed
  ultimately show ?case using Cons.IH by simp
qed

text \<open>
  Claim C2. For every string the oracle returns as the strategy, the router node returns
  (it does not raise) and changes the state only in \<open>strategy\<close>, which becomes one of
  \<open>sql\<close>, \<open>rag\<close>, \<open>hybrid\<close>: with the string lower-cased and stripped,
  \<open>hybrid\<close> when both \<open>sql\<close> and \<open>rag\<close> occur in it as substrings, else
  \<open>sql\<close> when \<open>sql\<close> occurs, else \<open>rag\<close>.
\<close>

theorem router_node_classifies:
  assumes "router_oracle ev t (question s) = Inr pred_strategy"
  shows "\<exists>st. router_node ev t s = Inr (s\<lparr>strategy := st\<rparr>)
           \<and> st \<in> {''sql'', ''rag'', ''hybrid''}
           \<and> st =
               (if (\<exists>u v. strip (lower pred_strategy) = u @ ''sql'' @ v)
                   \<and> (\<exists>u v. strip (lower pred_strategy) = u @ ''rag'' @ v) then ''hybrid''
                else if (\<exists>u v. strip (lower pred_strategy) = u @ ''sql'' @ v) then ''sql''
                else ''rag'')"
proof -
  have a: "(\<exists>u v. strip (lower pred_strategy) = u @ ''sql'' @ v)
             = py_in ''sql'' (strip (lower pred_strategy))"
    and b: "(\<exists>u v. strip (lower pred_strategy) = u @ ''rag'' @ v)
             = py_in ''rag'' (strip (lower pred_strategy))"
    by (simp_all only: py_in_iff)
  show ?thesis
    unfolding a b using assms by (simp add: router_node_def Let_def)
qed

theorem router_node_classifies_witness:
  "router_oracle demo_env 0 (question (initial_state demo_question)) = Inr ''SQL''
   \<and> router_node demo_env 0 (initial_state demo_question)
       = Inr ((initial_state demo_question)\<lparr>strategy := ''sql''\<rparr>)"
proof -
  have h: "router_oracle demo_env 0 (question (initial_state demo_question)) = Inr ''SQL''"
    by (simp add: demo_env_def)
  have "py_in ''sql'' (strip (lower ''SQL''))" "\<not> py_in ''rag'' (strip (lower ''SQL''))"
    by (simp_all add: strip_def char_eval)
  then show ?thesis
    using h router_node_classifies[OF h] by (auto simp: py_in_iff)
qed

section \<open>The executor\<close>

text \<open>
  Claim C6, as stated, fails where it says that the error string is appended to the errors
  list. The generator recorded a validation error for \<open>SELECT 1 FROM t\<close>; the
  execution fails as well, and the errors list is then the execution error alone, not the
  validation error followed by it.
\<close>

theorem executor_node_append_counterexample:
  "sql_generator_node demo_env 2 (initial_state demo_question) = Inr demo_invalid_state
   \<and> run (db_at demo_env 3) (sql_query demo_invalid_state) = Inl ''no such table: t''
   \<and> executor_node demo_env 3 demo_invalid_state
       = Inr (demo_invalid_state
               \<lparr>sql_result := Some \<lparr>columns = [], rows = [], error = Some ''no such table: t''\<rparr>,
                errors := [''no such table: t'']\<rparr>)
   \<and> [''no such table: t''] \<noteq> errors demo_invalid_state @ [''no such table: t'']"
proof -
  have r: "run (db_at demo_env 3) (sql_query demo_invalid_state) = Inl ''no such table: t''"
    by (simp add: demo_sql_oracle demo_db_def demo_invalid_state_def)
  then have "executor_node demo_env 3 demo_invalid_state
       = Inr (demo_invalid_state
               \<lparr>sql_result := Some \<lparr>columns = [], rows = [], error = Some ''no such table: t''\<rparr>,
                errors := [''no such table: t'']\<rparr>)"
    by (simp add: executor_node_def execute_query_def)
  moreover have "[''no such table: t''] \<noteq> errors demo_invalid_state @ [''no such table: t'']"
    by (simp add: demo_invalid_state_def)
  ultimately show ?thesis
    using r demo_sql_generator(1) by blast
qed

lemma check_execution_edge:
  "next_node Executor s
     = Inr (Some (if errors s \<noteq> [] \<and> repair_count s < 2 then Repair else Synthesizer))"
  by (simp add: next_node_def check_execution_def conditional_edge_def)

text \<open>
  Claim C6, amended. For every SQL query string, if executing it raises, the result record
  has no columns, no rows and the text of the exception as its error; the executor node
  returns (it does not raise) with that record as \<open>sql_result\<close>; when the text is not
  empty the errors list becomes the one-element list of that text, replacing what it held;
  and the workflow goes on to the repair node or to the synthesizer.
\<close>

theorem executor_node_failure:
  assumes "run (db_at ev t) (sql_query s) = Inl e"
  shows "execute_query (db_at ev t) (sql_query s) = \<lparr>columns = [], rows = [], error = Some e\<rparr>
    \<and> (\<exists>s'. executor_node ev t s = Inr s'
            \<and> sql_result s' = Some \<lparr>columns = [], rows = [], error = Some e\<rparr>
            \<and> (e \<noteq> [] \<longrightarrow> errors s' = [e])
            \<and> (\<exists>n. next_node Executor s' = Inr (Some n) \<and> (n = Repair \<or> n = Synthesizer)))"
proof -
  let ?r = "\<lparr>columns = [], rows = [], error = Some e\<rparr>"
  have q: "execute_query (db_at ev t) (sql_query s) = ?r"
    using assms by (simp add: execute_query_def)
  have n: "\<exists>n. next_node Executor s' = Inr (Some n) \<and> (n = Repair \<or> n = Synthesizer)" for s'
    by (simp add: check_execution_edge)
  show ?thesis
  proof (cases "e = []")
    case True
    then have "executor_node ev t s = Inr (s\<lparr>sql_result := Some ?r\<rparr>)"
      by (simp add: executor_node_def q)
    with q n True show ?thesis by simp
  next
    case False
    then have "executor_node ev t s = Inr (s\<lparr>sql_result := Some ?r, errors := [e]\<rparr>)"
      by (simp add: executor_node_def q)
    with q n False show ?thesis by simp
  qed
qed

theorem executor_node_failure_witness:
  "run (db_at demo_env 3) (sql_query demo_invalid_state) = Inl ''no such table: t''
   \<and> (\<exists>s'. executor_node demo_env 3 demo_invalid_state = Inr s'
           \<and> sql_result s' = Some \<lparr>columns = [], rows = [], error = Some ''no such table: t''\<rparr>
           \<and> errors s' = [''no such table: t''])"
proof -
  have h: "run (db_at demo_env 3) (sql_query demo_invalid_state) = Inl ''no such table: t''"
    by (simp add: demo_sql_oracle demo_db_def demo_invalid_state_def)
  show ?thesis
    using h executor_node_failure[OF h] by auto
qed

lemma validate_sql_invalid: "\<not> valid (validate_sql cat sql) \<Longrightarrow> val_errors (validate_sql cat sql) \<noteq> []"
  by (auto simp: validate_sql_def Let_def split: if_splits)

text \<open>
  Claim C10. When the execution of the query succeeds, the executor node changes
  \<open>sql_result\<close> and nothing else, the errors list included. So when the generator node
  found the query invalid, the validation errors it recorded are still the errors list
  after a successful execution, the list is not empty, and with fewer than two repairs
  done the edge after the executor leads to the repair node.
\<close>

theorem executor_success_keeps_errors:
  "(run (db_at ev t') (sql_query s) = Inr (cols, rws) \<longrightarrow>
      executor_node ev t' s
        = Inr (s\<lparr>sql_result := Some \<lparr>columns = cols, rows = rws, error = None\<rparr>\<rparr>))
   \<and> (sql_generator_node ev t s0 = Inr s
        \<and> new_validator (hash_rank ev) (db_at ev t) = Inr validator
        \<and> \<not> valid (validate_sql validator (sql_query s))
        \<and> run (db_at ev t') (sql_query s) = Inr (cols, rws) \<longrightarrow>
      (\<exists>s'. executor_node ev t' s = Inr s'
          \<and> errors s' = val_errors (validate_sql validator (sql_query s))
          \<and> errors s' \<noteq> []
          \<and> (repair_count s0 < 2 \<longrightarrow> next_node Executor s' = Inr (Some Repair))))"
proof (intro conjI impI)
  assume "run (db_at ev t') (sql_query s) = Inr (cols, rws)"
  then show "executor_node ev t' s
        = Inr (s\<lparr>sql_result := Some \<lparr>columns = cols, rows = rws, error = None\<rparr>\<rparr>)"
    by (simp add: executor_node_def execute_query_def)
next
  assume a: "sql_generator_node ev t s0 = Inr s
        \<and> new_validator (hash_rank ev) (db_at ev t) = Inr validator
        \<and> \<not> valid (validate_sql validator (sql_query s))
        \<and> run (db_at ev t') (sql_query s) = Inr (cols, rws)"
  then have ex: "executor_node ev t' s
        = Inr (s\<lparr>sql_result := Some \<lparr>columns = cols, rows = rws, error = None\<rparr>\<rparr>)"
    by (simp add: executor_node_def execute_query_def)
  from a have gen: "errors s = val_errors (validate_sql validator (sql_query s))
      \<and> repair_count s = repair_count s0"
    by (auto simp: sql_generator_node_def Let_def split: sum.splits if_splits)
  from a have ne: "val_errors (validate_sql validator (sql_query s)) \<noteq> []"
    by (simp add: validate_sql_invalid)
  show "\<exists>s'. executor_node ev t' s = Inr s'
          \<and> errors s' = val_errors (validate_sql validator (sql_query s))
          \<and> errors s' \<noteq> []
          \<and> (repair_count s0 < 2 \<longrightarrow> next_node Executor s' = Inr (Some Repair))"
    using ex gen ne by (simp add: check_execution_edge)
qed

theorem executor_success_keeps_errors_witness:
  "sql_generator_node demo_env 5 (initial_state demo_question) = Inr demo_flagged_state
   \<and> new_validator (hash_rank demo_env) (db_at demo_env 5) = Inr demo_catalog
   \<and> \<not> valid (validate_sql demo_catalog (sql_query demo_flagged_state))
   \<and> run (db_at demo_env 6) (sql_query demo_flagged_state) = Inr ([''1''], [[SqlInteger 1]])
   \<and> repair_count (initial_state demo_question) < 2
   \<and> (\<exists>s'. executor_node demo_env 6 demo_flagged_state = Inr s'
          \<and> errors s' = [demo_table_error ''sqlite_master'']
          \<and> next_node Executor s' = Inr (Some Repair))"
proof -
  have h1: "sql_generator_node demo_env 5 (initial_state demo_question) = Inr demo_flagged_state"
    by (rule demo_sql_generator)
  have h2: "new_validator (hash_rank demo_env) (db_at demo_env 5) = Inr demo_catalog"
    by (simp add: demo_sql_oracle demo_new_validator)
  have q: "sql_query demo_flagged_state = ''SELECT 1 FROM sqlite_master''"
    by (simp add: demo_flagged_state_def)
  have h3: "\<not> valid (validate_sql demo_catalog (sql_query demo_flagged_state))"
    by (simp add: q demo_validate_sql)
  have h4: "run (db_at demo_env 6) (sql_query demo_flagged_state) = Inr ([''1''], [[SqlInteger 1]])"
    by (simp add: q demo_sql_oracle demo_db_def)
  have h5: "repair_count (initial_state demo_question) < 2"
    by (simp add: initial_state_def)
  have e: "val_errors (validate_sql demo_catalog (sql_query demo_flagged_state))
             = [demo_table_error ''sqlite_master'']"
    by (simp add: q demo_validate_sql)
  have "\<exists>s'. executor_node demo_env 6 demo_flagged_state = Inr s'
          \<and> errors s' = val_errors (validate_sql demo_catalog (sql_query demo_flagged_state))
          \<and> errors s' \<noteq> []
          \<and> (repair_count (initial_state demo_question) < 2
               \<longrightarrow> next_node Executor s' = Inr (Some Repair))"
    using h1 h2 h3 h4
      executor_success_keeps_errors[of demo_env 6 demo_flagged_state "[''1'']" "[[SqlInteger 1]]"
        5 "initial_state demo_question" demo_catalog]
    by blast
  then show ?thesis
    unfolding e using h1 h2 h3 h4 h5 by blast
qed

section \<open>The repair loop\<close>

text \<open>
  Claim C1, as stated, fails where it says that the workflow always reaches synthesis:
  when the language model raises during SQL generation the invocation ends with the
  exception after the router, the planner and the generator, and the synthesizer never
  runs.
\<close>

theorem repair_loop_bounded_counterexample:
  "visited_nodes demo_failing_env (initial_state demo_question) = [Router, Planner, SqlGenerator]
   \<and> invoke demo_failing_env (initial_state demo_question) = Inl ''connection refused''
   \<and> Synthesizer \<notin> set (visited_nodes demo_failing_env (initial_state demo_question))"
  by (simp add: visited_nodes_def invoke_def demo_failing_run)

text \<open>
  Claim C1, amended. After the executor the edge leads to the repair node if and only if
  the errors list is not empty and \<open>repair_count < 2\<close>, and to the synthesizer otherwise;
  the repair node adds exactly one to \<open>repair_count\<close> and leads back to the generator;
  an invocation that starts with \<open>repair_count \<ge> 0\<close> (the batch driver starts at 0)
  runs the generator at most 3 times, whether it returns or raises. An invocation that
  returns a final state ends with the synthesizer; an invocation that ends with an
  exception ends at a node of the run that raised it on the state it received; so the
  workflow reaches synthesis and returns whenever no node of the run raises.
\<close>

theorem repair_loop_bounded:
  "next_node Executor s
     = Inr (Some (if errors s \<noteq> [] \<and> repair_count s < 2 then Repair else Synthesizer))
   \<and> (repair_node ev t s = Inr s' \<longrightarrow> repair_count s' = repair_count s + 1)
   \<and> next_node Repair s = Inr (Some SqlGenerator)
   \<and> (0 \<le> repair_count s0 \<longrightarrow> count_list (visited_nodes ev s0) SqlGenerator \<le> 3)
   \<and> (invoke ev s0 = Inr f \<longrightarrow> last (visited_nodes ev s0) = Synthesizer)
   \<and> (invoke ev s0 = Inl e \<longrightarrow>
        (\<exists>k n s1. configuration ev 0 Router s0 k = Some (n, s1) \<and> run_node ev k n s1 = Inl e
           \<and> length (visited_nodes ev s0) = Suc k \<and> last (visited_nodes ev s0) = n))
   \<and> ((\<forall>k n s1. configuration ev 0 Router s0 k = Some (n, s1) \<longrightarrow>
                  (\<exists>s2. run_node ev k n s1 = Inr s2)) \<longrightarrow>
        (\<exists>f. invoke ev s0 = Inr f \<and> last (visited_nodes ev s0) = Synthesizer))"
proof (intro conjI impI)
  show "next_node Executor s
     = Inr (Some (if errors s \<noteq> [] \<and> repair_count s < 2 then Repair else Synthesizer))"
    by (simp add: next_node_def check_execution_def conditional_edge_def)
  show "repair_count s' = repair_count s + 1" if "repair_node ev t s = Inr s'"
    using run_node_repair_count[of ev t Repair s s'] that by (simp add: run_node_def)
  show "next_node Repair s = Inr (Some SqlGenerator)"
    by (simp add: next_node_def)
  show "count_list (visited_nodes ev s0) SqlGenerator \<le> 3" if "0 \<le> repair_count s0"
    using traverse_generations[of ev 0 Router s0] that
    by (simp add: visited_nodes_def generations_left_def)
  show "last (visited_nodes ev s0) = Synthesizer" if "invoke ev s0 = Inr f"
    using traverse_final_last[of ev 0 Router s0 f] that
    by (simp add: visited_nodes_def invoke_def)
  have raised: "\<exists>k n s1. configuration ev 0 Router s0 k = Some (n, s1) \<and> run_node ev k n s1 = Inl x
           \<and> length (visited_nodes ev s0) = Suc k \<and> last (visited_nodes ev s0) = n"
    if "invoke ev s0 = Inl x" for x
    using traverse_raised[of ev 0 Router s0 x] that
    by (simp add: visited_nodes_def invoke_def)
  show "\<exists>k n s1. configuration ev 0 Router s0 k = Some (n, s1) \<and> run_node ev k n s1 = Inl e
           \<and> length (visited_nodes ev s0) = Suc k \<and> last (visited_nodes ev s0) = n"
    if "invoke ev s0 = Inl e"
    using raised[OF that] .
  show "\<exists>f. invoke ev s0 = Inr f \<and> last (visited_nodes ev s0) = Synthesizer"
    if ok: "\<forall>k n s1. configuration ev 0 Router s0 k = Some (n, s1) \<longrightarrow>
                  (\<exists>s2. run_node ev k n s1 = Inr s2)"
  proof (cases "invoke ev s0")
    case (Inl x)
    from raised[OF Inl] obtain k n s1
      where "configuration ev 0 Router s0 k = Some (n, s1)" "run_node ev k n s1 = Inl x"
      by blast
    with ok show ?thesis by force
  next
    case (Inr f)
    then show ?thesis
      using traverse_final_last[of ev 0 Router s0 f]
      by (simp add: visited_nodes_def invoke_def)
  qed
qed

theorem repair_loop_bounded_witness:
  "repair_node demo_env 4 (initial_state demo_question)
     = Inr ((initial_state demo_question)\<lparr>repair_count := 1, errors := []\<rparr>)
   \<and> repair_count ((initial_state demo_question)\<lparr>repair_count := 1, errors := []\<rparr>)
       = repair_count (initial_state demo_question) + 1
   \<and> 0 \<le> repair_count (initial_state demo_question)
   \<and> count_list (visited_nodes demo_env (initial_state demo_question)) SqlGenerator = 3
   \<and> count_list (visited_nodes demo_env (initial_state demo_question)) SqlGenerator \<le> 3
   \<and> (\<forall>t n s. \<exists>s'. run_node demo_env t n s = Inr s')
   \<and> invoke demo_env (initial_state demo_question) = Inr demo_final_state
   \<and> last (visited_nodes demo_env (initial_state demo_question)) = Synthesizer
   \<and> invoke demo_failing_env (initial_state demo_question) = Inl ''connection refused''
   \<and> configuration demo_failing_env 0 Router (initial_state demo_question) 2
       = Some (SqlGenerator, (initial_state demo_question)\<lparr>strategy := ''sql''\<rparr>)
   \<and> run_node demo_failing_env 2 SqlGenerator ((initial_state demo_question)\<lparr>strategy := ''sql''\<rparr>)
       = Inl ''connection refused''
   \<and> (\<exists>k n s1. configuration demo_failing_env 0 Router (initial_state demo_question) k = Some (n, s1)
         \<and> run_node demo_failing_env k n s1 = Inl ''connection refused''
         \<and> length (visited_nodes demo_failing_env (initial_state demo_question)) = Suc k
         \<and> last (visited_nodes demo_failing_env (initial_state demo_question)) = n)"
proof -
  have r: "repair_node demo_env 4 (initial_state demo_question)
     = Inr ((initial_state demo_question)\<lparr>repair_count := 1, errors := []\<rparr>)"
    by (simp add: demo_repair_node initial_state_def)
  have z: "0 \<le> repair_count (initial_state demo_question)"
    by (simp add: initial_state_def)
  have n: "\<forall>t n s. \<exists>s'. run_node demo_env t n s = Inr s'"
    using demo_nodes_return by blast
  have i: "invoke demo_env (initial_state demo_question) = Inr demo_final_state"
    by (simp add: invoke_def demo_run)
  have c: "count_list (visited_nodes demo_env (initial_state demo_question)) SqlGenerator = 3"
    by (simp add: visited_nodes_def demo_run)
  have x: "invoke demo_failing_env (initial_state demo_question) = Inl ''connection refused''"
    by (simp add: invoke_def demo_failing_run)
  have g: "run_node demo_failing_env 2 SqlGenerator
             ((initial_state demo_question)\<lparr>strategy := ''sql''\<rparr>) = Inl ''connection refused''"
    by (simp add: run_node_def demo_failing_generator)
  note th = repair_loop_bounded[of "initial_state demo_question" demo_env 4
      "(initial_state demo_question)\<lparr>repair_count := 1, errors := []\<rparr>"
      "initial_state demo_question" demo_final_state]
  note tf = repair_loop_bounded[of "initial_state demo_question" demo_failing_env 4
      "initial_state demo_question" "initial_state demo_question" demo_final_state
      "''connection refused''"]
  from th r have a: "repair_count ((initial_state demo_question)\<lparr>repair_count := 1, errors := []\<rparr>)
       = repair_count (initial_state demo_question) + 1"
    by blast
  from th z
  have b: "count_list (visited_nodes demo_env (initial_state demo_question)) SqlGenerator \<le> 3"
    by blast
  from th n have d: "last (visited_nodes demo_env (initial_state demo_question)) = Synthesizer"
    by blast
  from tf x have f: "\<exists>k n s1.
         configuration demo_failing_env 0 Router (initial_state demo_question) k = Some (n, s1)
         \<and> run_node demo_failing_env k n s1 = Inl ''connection refused''
         \<and> length (visited_nodes demo_failing_env (initial_state demo_question)) = Suc k
         \<and> last (visited_nodes demo_failing_env (initial_state demo_question)) = n"
    by blast
  show ?thesis
    using r z n i c x g a b d f demo_failing_configuration by blast
qed

section \<open>The batch\<close>

lemma process_loop_eq:
  "process_loop envs i questions results
     = results @ map (\<lambda>kq. answer_question (envs (fst kq)) (snd kq)) (enumerate i questions)"
  by (induction questions arbitrary: i results) simp_all

text \<open>
  Claim C7. The batch has one output record for each question, in order, and the record
  of a question depends on that question and its invocation alone: its confidence is
  0.8 when the final state has no errors, 0.4 when it has some, and 0.0 when an exception
  escapes the invocation, in which case the explanation is the text of the exception.
  So a question that fails does not stop the ones after it.
\<close>

theorem process_questions_records:
  "length (process_questions envs questions) = length questions
   \<and> (\<forall>i<length questions.
        process_questions envs questions ! i = answer_question (envs i) (questions ! i)
        \<and> out_id (process_questions envs questions ! i) = q_id (questions ! i)
        \<and> (case invoke (envs i) (initial_state (questions ! i)) of
              Inr final_state \<Rightarrow>
                out_confidence (process_questions envs questions ! i)
                  = (if errors final_state = [] then 0.8 else 0.4)
            | Inl e \<Rightarrow>
                out_confidence (process_questions envs questions ! i) = 0.0
                \<and> out_explanation (process_questions envs questions ! i) = e))"
proof -
  have nth: "process_questions envs questions ! i = answer_question (envs i) (questions ! i)"
    if "i < length questions" for i
    using that by (simp add: process_questions_def process_loop_eq nth_enumerate_eq)
  have rec: "out_id (answer_question ev q) = q_id q
        \<and> (case invoke ev (initial_state q) of
              Inr final_state \<Rightarrow>
                out_confidence (answer_question ev q) = (if errors final_state = [] then 0.8 else 0.4)
            | Inl e \<Rightarrow>
                out_confidence (answer_question ev q) = 0.0 \<and> out_explanation (answer_question ev q) = e)"
    for ev q
    by (simp add: answer_question_def split: sum.splits)
  have len: "length (process_questions envs questions) = length questions"
    by (simp add: process_questions_def process_loop_eq)
  show ?thesis
  proof (intro conjI allI impI)
    show "length (process_questions envs questions) = length questions"
      by (rule len)
  next
    fix i assume "i < length questions"
    then show "process_questions envs questions ! i = answer_question (envs i) (questions ! i)"
      by (rule nth)
  next
    fix i assume "i < length questions"
    then show "out_id (process_questions envs questions ! i) = q_id (questions ! i)"
      using rec[of "envs i" "questions ! i"] by (simp only: nth)
  next
    fix i assume "i < length questions"
    then show "case invoke (envs i) (initial_state (questions ! i)) of
              Inr final_state \<Rightarrow>
                out_confidence (process_questions envs questions ! i)
                  = (if errors final_state = [] then 0.8 else 0.4)
            | Inl e \<Rightarrow>
                out_confidence (process_questions envs questions ! i) = 0.0
                \<and> out_explanation (process_questions envs questions ! i) = e"
      using rec[of "envs i" "questions ! i"] by (simp only: nth)
  qed
qed

theorem process_questions_records_witness:
  "(0::nat) < length [demo_question, demo_question]
   \<and> (1::nat) < length [demo_question, demo_question]
   \<and> invoke (demo_envs 0) (initial_state demo_question) = Inl ''connection refused''
   \<and> invoke (demo_envs 1) (initial_state demo_question) = Inr demo_final_state
   \<and> errors demo_final_state \<noteq> []
   \<and> length (process_questions demo_envs [demo_question, demo_question]) = 2
   \<and> out_confidence (process_questions demo_envs [demo_question, demo_question] ! 0) = 0.0
   \<and> out_explanation (process_questions demo_envs [demo_question, demo_question] ! 0)
       = ''connection refused''
   \<and> out_confidence (process_questions demo_envs [demo_question, demo_question] ! 1) = 0.4"
proof -
  let ?qs = "[demo_question, demo_question]"
  have i0: "invoke (demo_envs 0) (initial_state demo_question) = Inl ''connection refused''"
    by (simp add: demo_envs_def invoke_def demo_failing_run)
  have i1: "invoke (demo_envs 1) (initial_state demo_question) = Inr demo_final_state"
    by (simp add: demo_envs_def invoke_def demo_run)
  have e: "errors demo_final_state \<noteq> []"
    by (simp add: demo_final_state_def)
  note th = process_questions_records[of demo_envs ?qs]
  from th have len: "length (process_questions demo_envs ?qs) = 2"
    by simp
  from th have all: "\<forall>i<length ?qs.
        process_questions demo_envs ?qs ! i = answer_question (demo_envs i) (?qs ! i)
        \<and> out_id (process_questions demo_envs ?qs ! i) = q_id (?qs ! i)
        \<and> (case invoke (demo_envs i) (initial_state (?qs ! i)) of
              Inr final_state \<Rightarrow>
                out_confidence (process_questions demo_envs ?qs ! i)
                  = (if errors final_state = [] then 0.8 else 0.4)
            | Inl e \<Rightarrow>
                out_confidence (process_questions demo_envs ?qs ! i) = 0.0
                \<and> out_explanation (process_questions demo_envs ?qs ! i) = e)"
    by (rule conjunct2)
  have
    "case invoke (demo_envs 0) (initial_state (?qs ! 0)) of
       Inr final_state \<Rightarrow>
         out_confidence (process_questions demo_envs ?qs ! 0)
           = (if errors final_state = [] then 0.8 else 0.4)
     | Inl e \<Rightarrow>
         out_confidence (process_questions demo_envs ?qs ! 0) = 0.0
         \<and> out_explanation (process_questions demo_envs ?qs ! 0) = e"
    using all[rule_format, of 0] by simp
  with i0 have r0: "out_confidence (process_questions demo_envs ?qs ! 0) = 0.0
         \<and> out_explanation (process_questions demo_envs ?qs ! 0) = ''connection refused''"
    by simp
  have
    "case invoke (demo_envs 1) (initial_state (?qs ! 1)) of
       Inr final_state \<Rightarrow>
         out_confidence (process_questions demo_envs ?qs ! 1)
           = (if errors final_state = [] then 0.8 else 0.4)
     | Inl e \<Rightarrow>
         out_confidence (process_questions demo_envs ?qs ! 1) = 0.0
         \<and> out_explanation (process_questions demo_envs ?qs ! 1) = e"
    using all[rule_format, of 1] by simp
  with i1 e have r1: "out_confidence (process_questions demo_envs ?qs ! 1) = 0.4"
    by simp
  show ?thesis
    using i0 i1 e len r0 r1 by simp
qed

section \<open>The route of a question answered from the documents\<close>

text \<open>
  Claim C8. For every question that the router resolves to \<open>rag\<close>, the edge after the
  router leads to the retriever and the edge after the retriever to the synthesizer; the
  invocation never visits the SQL generator or the executor; and when it returns, it has
  visited router, retriever and synthesizer, \<open>sql_query\<close> is still the empty string,
  and the citations are the ids of the retrieved chunks, each the id of a chunk of the
  corpus and none a table name.
\<close>

theorem rag_skips_sql:
  assumes router: "router_node ev 0 (initial_state q) = Inr s1" and rag: "strategy s1 = ''rag''"
  shows "next_node Router s1 = Inr (Some Retriever)
    \<and> (\<forall>s2. retriever_node ev 1 s1 = Inr s2 \<longrightarrow> next_node Retriever s2 = Inr (Some Synthesizer))
    \<and> SqlGenerator \<notin> set (visited_nodes ev (initial_state q))
    \<and> Executor \<notin> set (visited_nodes ev (initial_state q))
    \<and> (\<forall>f. invoke ev (initial_state q) = Inr f \<longrightarrow>
          visited_nodes ev (initial_state q) = [Router, Retriever, Synthesizer]
          \<and> sql_query f = []
          \<and> citations f = map chunk_id (context_chunks f)
          \<and> (\<exists>r. new_retriever ev 1 = Inr r \<and> set (citations f) \<subseteq> chunk_id ` set (chunks r))
          \<and> set (citations f) \<inter> set cited_tables = {})"
proof -
  have s1: "s1 = (initial_state q)\<lparr>strategy := ''rag''\<rparr>"
    using router_node_frame[OF router] rag by simp
  have e1: "next_node Router s1 = Inr (Some Retriever)"
    using rag by (simp add: next_node_def route_strategy_def conditional_edge_def)
  have e2: "next_node Retriever s2 = Inr (Some Synthesizer)" if "retriever_node ev 1 s1 = Inr s2" for s2
  proof -
    from that rag have "strategy s2 = ''rag''"
      by (auto simp: retriever_node_def split: sum.splits)
    then show ?thesis
      by (simp add: next_node_def route_retriever_def conditional_edge_def)
  qed
  have t0: "traverse ev 0 Router (initial_state q)
      = (Router # fst (traverse ev 1 Retriever s1), snd (traverse ev 1 Retriever s1))"
    using traverse_step[of ev 0 Router "initial_state q" s1 Retriever] router e1
    by (simp add: run_node_def)
  show ?thesis
  proof (cases "retriever_node ev 1 s1")
    case (Inl e)
    then have "traverse ev 1 Retriever s1 = ([Retriever], Inl e)"
      by (simp add: traverse_raise run_node_def)
    with t0 e1 e2 Inl show ?thesis
      by (simp add: visited_nodes_def invoke_def)
  next
    case (Inr s2)
    then obtain r where r: "new_retriever ev 1 = Inr r"
      and s2: "s2 = s1\<lparr>context_chunks := search r (tie_rank ev) (question s1) 3\<rparr>"
      by (auto simp: retriever_node_def split: sum.splits)
    have t1: "traverse ev 1 Retriever s1
        = (Retriever # fst (traverse ev 2 Synthesizer s2), snd (traverse ev 2 Synthesizer s2))"
      using traverse_step[of ev 1 Retriever s1 s2 Synthesizer] Inr e2[OF Inr]
      by (simp add: run_node_def numeral_2_eq_2)
    show ?thesis
    proof (cases "synthesizer_node ev 2 s2")
      case (Inl e)
      then have "traverse ev 2 Synthesizer s2 = ([Synthesizer], Inl e)"
        by (simp add: traverse_raise run_node_def)
      with t0 t1 e1 e2 show ?thesis
        by (simp add: visited_nodes_def invoke_def)
    next
      case s3: (Inr s3)
      have q2: "sql_query s2 = []"
        by (simp add: s2 s1 initial_state_def)
      from s3 q2 have f: "sql_query s3 = []" "context_chunks s3 = context_chunks s2"
        "citations s3 = map chunk_id (context_chunks s2)"
        by (auto simp: synthesizer_node_def Let_def split: sum.splits)
      have t2: "traverse ev 2 Synthesizer s2 = ([Synthesizer], Inr s3)"
        using s3 by (simp add: traverse_end run_node_def next_node_def)
      have ctx: "context_chunks s2 = search r (tie_rank ev) (question s1) 3"
        by (simp add: s2)
      have sub: "set (citations s3) \<subseteq> chunk_id ` set (chunks r)"
        using search_chunk_ids[of r "tie_rank ev" "question s1" 3] by (simp add: f ctx)
      have "CHR '':'' \<in> set c" if "c \<in> set (citations s3)" for c
        using that sub new_retriever_ids[OF r] by auto
      then have dis: "set (citations s3) \<inter> set cited_tables = {}"
        using cited_tables_no_colon by blast
      from t0 t1 t2 e1 e2 f r sub dis show ?thesis
        by (auto simp: visited_nodes_def invoke_def)
    qed
  qed
qed

theorem rag_skips_sql_witness:
  "router_node demo_rag_env 0 (initial_state demo_question)
     = Inr ((initial_state demo_question)\<lparr>strategy := ''rag''\<rparr>)
   \<and> strategy ((initial_state demo_question)\<lparr>strategy := ''rag''\<rparr>) = ''rag''
   \<and> invoke demo_rag_env (initial_state demo_question) = Inr demo_rag_final_state
   \<and> visited_nodes demo_rag_env (initial_state demo_question) = [Router, Retriever, Synthesizer]
   \<and> sql_query demo_rag_final_state = []
   \<and> citations demo_rag_final_state = [''policy::chunk0'']
   \<and> citations demo_rag_final_state = map chunk_id (context_chunks demo_rag_final_state)
   \<and> set (citations demo_rag_final_state) \<inter> set cited_tables = {}"
proof -
  have h1: "router_node demo_rag_env 0 (initial_state demo_question)
     = Inr ((initial_state demo_question)\<lparr>strategy := ''rag''\<rparr>)"
    by (rule demo_rag_router)
  have h2: "strategy ((initial_state demo_question)\<lparr>strategy := ''rag''\<rparr>) = ''rag''"
    by simp
  have i: "invoke demo_rag_env (initial_state demo_question) = Inr demo_rag_final_state"
    by (simp add: invoke_def demo_rag_run)
  have c: "citations demo_rag_final_state = [''policy::chunk0'']"
    by (simp add: demo_rag_final_state_def)
  from rag_skips_sql[OF h1 h2] i
  have "visited_nodes demo_rag_env (initial_state demo_question) = [Router, Retriever, Synthesizer]
          \<and> sql_query demo_rag_final_state = []
          \<and> citations demo_rag_final_state = map chunk_id (context_chunks demo_rag_final_state)
          \<and> set (citations demo_rag_final_state) \<inter> set cited_tables = {}"
    by blast
  with h1 h2 i c show ?thesis
    by blast
qed

section \<open>The search with \<open>top_k = 0\<close>\<close>

text \<open>
  Claim C3 says that a search returns at most \<open>top_k\<close> chunks for every \<open>top_k\<close>.
  With \<open>top_k = 0\<close> the slice \<open>[-top_k:]\<close> of the sorted indices is the whole
  array, so the search returns every chunk with a positive similarity: here one chunk,
  where the claim allows none.
\<close>

theorem search_top_k_zero:
  "search \<lparr>chunks = [demo_chunk], vectorizer = Some (\<lambda>q i. 1 / 2)\<rparr> (\<lambda>xs i. 0) ''returns'' 0
     = [chunk.extend demo_chunk (scored_chunk.fields (1 / 2))]
   \<and> \<not> int (length (search \<lparr>chunks = [demo_chunk], vectorizer = Some (\<lambda>q i. 1 / 2)\<rparr>
                       (\<lambda>xs i. 0) ''returns'' 0)) \<le> 0"
  by (simp add: search_def argsort_def slice_from_def)

end
